theory Spec2Isabelle
  imports Main
begin

section \<open>Strings and numbers of the host language\<close>

text \<open>
  A string is a list of code units; the model covers the code units below 256, one
  \<^typ>\<open>char\<close> each. \<open>char_code\<close> is \<open>charCodeAt\<close>.
\<close>

definition char_code :: "char \<Rightarrow> nat" where
  "char_code c = of_char c"

text \<open>The character classes of the three regular expressions of \<open>compareVer\<close>.\<close>

definition is_digit :: "char \<Rightarrow> bool" where
  \<comment> \<open>\<open>[0-9]\<close>\<close>
  "is_digit c = (48 \<le> char_code c \<and> char_code c \<le> 57)"

definition is_ver_char :: "char \<Rightarrow> bool" where
  \<comment> \<open>\<open>[0-9\.]\<close>, the class that \<open>[^0-9\.]\<close> negates\<close>
  "is_ver_char c = (is_digit c \<or> c = CHR ''.'')"

definition is_alnum :: "char \<Rightarrow> bool" where
  \<comment> \<open>\<open>[A-Za-z0-9]\<close>, the class that \<open>[\W_]\<close> negates (\<open>\w\<close> is ASCII only)\<close>
  "is_alnum c = (is_digit c \<or> (65 \<le> char_code c \<and> char_code c \<le> 90)
                  \<or> (97 \<le> char_code c \<and> char_code c \<le> 122))"

definition to_lower :: "char \<Rightarrow> char" where
  \<comment> \<open>\<open>toLowerCase\<close> on one code unit below 256: A-Z and the Latin-1 capitals\<close>
  "to_lower c =
     (if 65 \<le> char_code c \<and> char_code c \<le> 90 then char_of (char_code c + 32)
      else if 192 \<le> char_code c \<and> char_code c \<le> 222 \<and> char_code c \<noteq> 215
        then char_of (char_code c + 32)
      else c)"

text \<open>Decimal rendering of an integer, as string concatenation with a number gives it.\<close>

fun show_nat :: "nat \<Rightarrow> string" where
  "show_nat n =
     (if n < 10 then [''0123456789'' ! n]
      else show_nat (n div 10) @ [''0123456789'' ! (n mod 10)])"

declare show_nat.simps [simp del]

definition show_int :: "int \<Rightarrow> string" where
  "show_int i = (if i < 0 then CHR ''-'' # show_nat (nat (- i)) else show_nat (nat i))"

text \<open>
  \<open>ToNumber\<close> on a string, for the strings a segment can be: the empty string is 0, an
  optionally signed run of decimal digits is the double nearest to its value, anything else
  over digits and signs is NaN. A double that came from digits is a whole number or an
  infinity, so a finite one is kept as an \<^typ>\<open>int\<close>.
\<close>

datatype number = NaN | PosInf | NegInf | Finite int

fun bitlen :: "nat \<Rightarrow> nat" where
  "bitlen n = (if n = 0 then 0 else Suc (bitlen (n div 2)))"

declare bitlen.simps [simp del]

definition nearest_double :: "nat \<Rightarrow> nat option" where
  \<comment> \<open>round to 53 significant bits, ties to even; \<open>None\<close> is the overflow to infinity\<close>
  "nearest_double n =
     (if n < 2 ^ 53 then Some n
      else
        let s = bitlen n - 53;
            q = n div 2 ^ s;
            r = n mod 2 ^ s;
            h = 2 ^ (s - 1);
            q' = (if h < r \<or> (r = h \<and> odd q) then q + 1 else q);
            m = q' * 2 ^ s
        in if 2 ^ 1024 \<le> m then None else Some m)"

definition digits_value :: "string \<Rightarrow> nat" where
  "digits_value s = foldl (\<lambda>n c. 10 * n + (char_code c - 48)) 0 s"

definition all_digits :: "string \<Rightarrow> bool" where
  "all_digits s = (s \<noteq> [] \<and> list_all is_digit s)"

definition string_to_number :: "string \<Rightarrow> number" where
  "string_to_number s =
     (if s = [] then Finite 0
      else if all_digits s then
        (case nearest_double (digits_value s) of None \<Rightarrow> PosInf | Some m \<Rightarrow> Finite (int m))
      else if hd s = CHR ''-'' \<and> all_digits (tl s) then
        (case nearest_double (digits_value (tl s)) of
           None \<Rightarrow> NegInf | Some m \<Rightarrow> Finite (- int m))
      else if hd s = CHR ''+'' \<and> all_digits (tl s) then
        (case nearest_double (digits_value (tl s)) of
           None \<Rightarrow> PosInf | Some m \<Rightarrow> Finite (int m))
      else NaN)"

definition to_int32 :: "number \<Rightarrow> int" where
  \<comment> \<open>\<open>ToInt32\<close>: NaN and the infinities are 0, a finite value wraps modulo \<open>2^32\<close>\<close>
  "to_int32 x =
     (case x of
        Finite i \<Rightarrow> (let m = i mod 2 ^ 32 in if 2 ^ 31 \<le> m then m - 2 ^ 32 else m)
      | _ \<Rightarrow> 0)"

section \<open>compareVer\<close>

text \<open>
  The first replacement of \<open>prep\<close>: \<open>.replace(/[^0-9\.]+/g, function (c) {...})\<close>.
  Each maximal run \<open>c\<close> of characters outside \<open>[0-9\.]\<close> is handed to the callback.
  The callback removes the leftmost maximal run of \<open>[\W_]\<close> from \<open>c\<close> (the inner
  \<open>replace\<close> has no \<open>g\<close> flag); when something is left, the result is the code of its
  first character, lower-cased, minus 65536, and otherwise the empty string; either
  way between two dots.
\<close>

definition strip_first_nonword :: "string \<Rightarrow> string" where
  "strip_first_nonword c =
     takeWhile is_alnum c @ dropWhile (\<lambda>x. \<not> is_alnum x) (dropWhile is_alnum c)"

definition tag_segment :: "string \<Rightarrow> string" where
  "tag_segment c =
     ''.'' @ (case map to_lower (strip_first_nonword c) of
                [] \<Rightarrow> []
              | x # _ \<Rightarrow> show_int (int (char_code x) - 65536)) @ ''.''"

function replace_tags :: "string \<Rightarrow> string" where
  "replace_tags [] = []"
| "replace_tags (x # xs) =
     (if is_ver_char x then x # replace_tags xs
      else tag_segment (x # takeWhile (\<lambda>c. \<not> is_ver_char c) xs)
           @ replace_tags (dropWhile (\<lambda>c. \<not> is_ver_char c) xs))"
  by pat_completeness auto
termination
  by (relation "measure length") (auto simp: less_Suc_eq_le length_dropWhile_le)

declare replace_tags.simps [simp del]

text \<open>
  The second replacement: \<open>.replace(/(?:\.0+)*(\.-[0-9]+)(\.[0-9]+)?\.*$/g, "$1$2")\<close>.
  The pattern is anchored at the end of the string, so a match from a start position
  consumes the whole rest. From a given start the rest decomposes in at most one way:
  a group \<open>\.0+\<close> begins with a dot and a zero and the first capture with a dot and a
  minus sign, so the star must take every zero group there is, each with all its zeros;
  the digits of both captures are followed by a dot or the end, so they are maximal runs;
  the second capture is taken exactly when a dot and a digit follow the first. So
  backtracking cannot find a match that the greedy reading below misses.
  \<open>skip_zero_groups\<close> is \<open>(?:\.0+)*\<close>, \<open>match_tail\<close> is the rest of the pattern and
  returns the two captures.
\<close>

function skip_zero_groups :: "string \<Rightarrow> string" where
  "skip_zero_groups [] = []"
| "skip_zero_groups [a] = [a]"
| "skip_zero_groups (a # b # r) =
     (if a = CHR ''.'' \<and> b = CHR ''0''
      then skip_zero_groups (dropWhile (\<lambda>c. c = CHR ''0'') r)
      else a # b # r)"
  by pat_completeness auto
termination
  by (relation "measure length") (auto simp: less_Suc_eq_le le_SucI length_dropWhile_le)

declare skip_zero_groups.simps [simp del]

definition all_dots :: "string \<Rightarrow> bool" where
  "all_dots s = list_all (\<lambda>c. c = CHR ''.'') s"

definition match_tail :: "string \<Rightarrow> (string \<times> string) option" where
  "match_tail s =
     (case s of
        a # b # r \<Rightarrow>
          if a = CHR ''.'' \<and> b = CHR ''-'' \<and> takeWhile is_digit r \<noteq> [] then
            (let g1 = a # b # takeWhile is_digit r;
                 r1 = dropWhile is_digit r
             in case r1 of
                  [] \<Rightarrow> Some (g1, [])
                | x # r2 \<Rightarrow>
                    if x = CHR ''.'' \<and> takeWhile is_digit r2 \<noteq> []
                       \<and> all_dots (dropWhile is_digit r2)
                    then Some (g1, x # takeWhile is_digit r2)
                    else if all_dots r1 then Some (g1, [])
                    else None)
          else None
      | _ \<Rightarrow> None)"

text \<open>
  The search takes the leftmost start position that matches. The match reaches the end of
  the string, and the pattern does not match the empty string, so the \<open>g\<close> flag finds no
  second match.
\<close>

fun trim_zero_tail :: "string \<Rightarrow> string" where
  "trim_zero_tail s =
     (case match_tail (skip_zero_groups s) of
        Some (g1, g2) \<Rightarrow> g1 @ g2
      | None \<Rightarrow> (case s of [] \<Rightarrow> [] | x # xs \<Rightarrow> x # trim_zero_tail xs))"

declare trim_zero_tail.simps [simp del]

text \<open>\<open>.split('.')\<close>: the pieces between the dots; the empty string gives one empty piece.\<close>

fun split_dots :: "string \<Rightarrow> string list" where
  "split_dots [] = [[]]"
| "split_dots (x # xs) =
     (if x = CHR ''.'' then [] # split_dots xs
      else (case split_dots xs of [] \<Rightarrow> [[x]] | p # ps \<Rightarrow> (x # p) # ps))"

definition prep :: "string \<Rightarrow> string list" where
  "prep t = split_dots (trim_zero_tail (replace_tags t))"

text \<open>
  The characters a piece of \<open>prep\<close> can hold (lemma \<open>prep_segment_chars\<close> below): the
  digits and the minus sign of a tag. On strings over these, \<open>string_to_number\<close> above
  is all of \<open>ToNumber\<close>.
\<close>

definition seg_char :: "char \<Rightarrow> bool" where
  "seg_char c = (is_digit c \<or> c = CHR ''-'')"

text \<open>
  The forms of a piece (lemma \<open>prep_numeric\<close> below): empty, a run of digits, or a minus
  sign and a run of digits.
\<close>

definition numeric_segment :: "string \<Rightarrow> bool" where
  "numeric_segment p = (p = [] \<or> all_digits p \<or> (hd p = CHR ''-'' \<and> all_digits (tl p)))"

text \<open>
  For the proofs: every piece of a string has one of these forms, and the first piece
  holds digits only.
\<close>

definition pieces_ok :: "string \<Rightarrow> bool" where
  "pieces_ok s = (list_all numeric_segment (split_dots s)
                  \<and> list_all is_digit (hd (split_dots s)))"

text \<open>
  The arrays \<open>a\<close> and \<open>b\<close> hold strings at first; the loop overwrites element \<open>i\<close> with
  the number \<open>~~a[i]\<close>. Reading past the end gives \<open>undefined\<close> (\<open>None\<close>), and writing
  at or past the end extends the array. The two comparisons of an iteration read back the
  numbers \<open>x\<close> and \<open>y\<close> just written.
\<close>

datatype elem = Str string | Num int

definition array_get :: "elem option list \<Rightarrow> nat \<Rightarrow> elem option" where
  "array_get a i = (if i < length a then a ! i else None)"

definition array_set :: "elem option list \<Rightarrow> nat \<Rightarrow> elem \<Rightarrow> elem option list" where
  "array_set a i v =
     (if i < length a then a[i := Some v]
      else a @ replicate (i - length a) None @ [Some v])"

definition double_tilde :: "elem option \<Rightarrow> int" where
  \<comment> \<open>\<open>~~x\<close>, that is \<open>ToInt32(ToNumber(x))\<close>; \<open>ToNumber(undefined)\<close> is NaN\<close>
  "double_tilde x =
     (case x of
        None \<Rightarrow> to_int32 NaN
      | Some (Str s) \<Rightarrow> to_int32 (string_to_number s)
      | Some (Num i) \<Rightarrow> to_int32 (Finite i))"

lemma length_array_set: "length (array_set a i v) = max (length a) (Suc i)"
  by (auto simp: array_set_def)

function compare_loop :: "elem option list \<Rightarrow> elem option list \<Rightarrow> nat \<Rightarrow> int" where
  "compare_loop a b i =
     (if i < max (length a) (length b) then
        (let x = double_tilde (array_get a i);
             a' = array_set a i (Num x);
             y = double_tilde (array_get b i);
             b' = array_set b i (Num y)
         in if x > y then 1
            else if x < y then - 1
            else compare_loop a' b' (Suc i))
      else 0)"
  by pat_completeness auto
termination
  by (relation "measure (\<lambda>(a, b, i). max (length a) (length b) - i)")
     (auto simp: length_array_set)

declare compare_loop.simps [simp del]

definition prep_array :: "string \<Rightarrow> elem option list" where
  \<comment> \<open>the array \<open>prep\<close> returns: every element a string\<close>
  "prep_array t = map (\<lambda>s. Some (Str s)) (prep t)"

definition compareVer :: "string \<Rightarrow> string \<Rightarrow> int" where
  "compareVer a b =
     (if a \<noteq> ''*'' \<and> b = ''*'' then - 1
      else if a = ''*'' \<and> b \<noteq> ''*'' then 1
      else if a = ''*'' \<and> b = ''*'' then 0
      else compare_loop (prep_array a) (prep_array b) 0)"

text \<open>
  For the proofs: the value the loop reads at index \<open>i\<close> of an array, and the
  comparison of two such sequences over \<open>k\<close> positions from \<open>i\<close> on.
\<close>

definition seg :: "elem option list \<Rightarrow> nat \<Rightarrow> int" where
  "seg a i = double_tilde (array_get a i)"

fun lex_cmp :: "(nat \<Rightarrow> int) \<Rightarrow> (nat \<Rightarrow> int) \<Rightarrow> nat \<Rightarrow> nat \<Rightarrow> int" where
  "lex_cmp f g i 0 = 0"
| "lex_cmp f g i (Suc k) =
     (if g i < f i then 1 else if f i < g i then - 1 else lex_cmp f g (Suc i) k)"

section \<open>Schema values\<close>

text \<open>
  The schema files are parsed JSON, so a value is one of the JSON values, or
  \<open>undefined\<close>. Numbers are modelled as integers. An object is the list of its own
  properties in insertion order, the order in which \<open>JSON.parse\<close> created them, each
  name once.
\<close>

datatype jsval =
    JUndefined
  | JNull
  | JBool bool
  | JNum int
  | JStr string
  | JArr "jsval list"
  | JObj "(string \<times> jsval) list"

datatype error = TypeError

text \<open>The truth value an \<open>if\<close> or \<open>!\<close> gives a value.\<close>

fun truthy :: "jsval \<Rightarrow> bool" where
  "truthy JUndefined = False"
| "truthy JNull = False"
| "truthy (JBool b) = b"
| "truthy (JNum i) = (i \<noteq> 0)"
| "truthy (JStr s) = (s \<noteq> [])"
| "truthy (JArr xs) = True"
| "truthy (JObj kvs) = True"

fun nullish :: "jsval \<Rightarrow> bool" where
  "nullish JUndefined = True"
| "nullish JNull = True"
| "nullish v = False"

text \<open>
  A property name is an array index when it is the canonical decimal form of an integer
  from 0 to \<open>2^32 - 2\<close>.
\<close>

definition index_of_key :: "string \<Rightarrow> nat option" where
  "index_of_key k =
     (if all_digits k \<and> show_nat (digits_value k) = k \<and> digits_value k < 2 ^ 32 - 1
      then Some (digits_value k) else None)"

definition is_index_name :: "string \<Rightarrow> bool" where
  "is_index_name k = (index_of_key k \<noteq> None)"

definition index_value :: "string \<Rightarrow> nat" where
  "index_value k = (case index_of_key k of None \<Rightarrow> 0 | Some i \<Rightarrow> i)"

text \<open>
  The order in which an object enumerates its own properties (\<open>Object.entries\<close>,
  \<open>JSON.stringify\<close>): the names that are array indices first, in ascending numeric
  order, then the other names in insertion order.
\<close>

definition own_order :: "(string \<times> 'a) list \<Rightarrow> (string \<times> 'a) list" where
  "own_order kvs =
     sort_key (\<lambda>p. index_value (fst p)) (filter (\<lambda>p. is_index_name (fst p)) kvs)
     @ filter (\<lambda>p. \<not> is_index_name (fst p)) kvs"

text \<open>
  \<open>v[k]\<close> for an own property of a value other than \<open>null\<close> and \<open>undefined\<close>, and
  \<open>undefined\<close> where the value has no own property \<open>k\<close>. An array and a string have
  \<open>length\<close> and their indices. The source reads a name that can be an inherited member
  in one place only, \<open>file.properties[e]\<close>, which \<open>member_json\<close> below models;
  \<open>properties\<close> and \<open>patternProperties\<close> are members of no prototype.
\<close>

fun prop_value :: "jsval \<Rightarrow> string \<Rightarrow> jsval" where
  "prop_value (JObj kvs) k = (case map_of kvs k of None \<Rightarrow> JUndefined | Some v \<Rightarrow> v)"
| "prop_value (JArr xs) k =
     (if k = ''length'' then JNum (int (length xs))
      else case index_of_key k of
             None \<Rightarrow> JUndefined
           | Some i \<Rightarrow> if i < length xs then xs ! i else JUndefined)"
| "prop_value (JStr s) k =
     (if k = ''length'' then JNum (int (length s))
      else case index_of_key k of
             None \<Rightarrow> JUndefined
           | Some i \<Rightarrow> if i < length s then JStr [s ! i] else JUndefined)"
| "prop_value v k = JUndefined"

text \<open>Whether a value has a property of its own under a key.\<close>

definition has_key :: "jsval \<Rightarrow> string \<Rightarrow> bool" where
  "has_key v k =
     (case v of
        JObj kvs \<Rightarrow> map_of kvs k \<noteq> None
      | JArr xs \<Rightarrow> k = ''length'' \<or> (case index_of_key k of None \<Rightarrow> False | Some i \<Rightarrow> i < length xs)
      | JStr s \<Rightarrow> k = ''length'' \<or> (case index_of_key k of None \<Rightarrow> False | Some i \<Rightarrow> i < length s)
      | _ \<Rightarrow> False)"

text \<open>
  \<open>data[key]\<close> raises a TypeError on \<open>null\<close> and \<open>undefined\<close>; \<open>file?.properties\<close>
  is \<open>undefined\<close> there.
\<close>

definition get_prop :: "jsval \<Rightarrow> string \<Rightarrow> error + jsval" where
  "get_prop v k = (if nullish v then Inl TypeError else Inr (prop_value v k))"

definition opt_prop :: "jsval \<Rightarrow> string \<Rightarrow> jsval" where
  "opt_prop v k = (if nullish v then JUndefined else prop_value v k)"

text \<open>
  \<open>Object.entries\<close>. The source calls it on truthy values only, where it cannot raise.
\<close>

fun object_entries :: "jsval \<Rightarrow> (string \<times> jsval) list" where
  "object_entries (JObj kvs) = own_order kvs"
| "object_entries (JArr xs) = zip (map show_nat [0..<length xs]) xs"
| "object_entries (JStr s) = zip (map show_nat [0..<length s]) (map (\<lambda>c. JStr [c]) s)"
| "object_entries v = []"

section \<open>extractFlatPolicyNamesFromPolicySchema\<close>

text \<open>
  A bound on the sizes of the values in a list of entries, for the termination proof.
\<close>

fun entries_bound :: "(string \<times> jsval) list \<Rightarrow> nat" where
  "entries_bound [] = 0"
| "entries_bound ((n, e) # es) = max (Suc (size e)) (entries_bound es)"

lemma entries_bound_le:
  "list_all (\<lambda>p. size (snd p) < b) es \<Longrightarrow> entries_bound es \<le> b"
  by (induction es rule: entries_bound.induct) auto

lemma size_map_of: "map_of kvs k = Some v \<Longrightarrow> Suc (size v) < size (JObj kvs)"
  by (induction kvs) (auto split: if_splits)

lemma size_member: "x \<in> set xs \<Longrightarrow> size x < Suc (size_list size xs)"
  by (induction xs) auto

lemma size_entry: "(n, e) \<in> set kvs \<Longrightarrow> size e < Suc (size_list (size_prod (\<lambda>x. 0) size) kvs)"
  by (induction kvs) auto

lemma set_own_order: "set (own_order kvs) = set kvs"
  by (auto simp: own_order_def)

lemma entries_bound_object_entries: "entries_bound (object_entries v) \<le> Suc (size v)"
proof (cases v)
  case (JObj kvs)
  have "list_all (\<lambda>p. size (snd p) < Suc (size v)) (own_order kvs)"
    unfolding list_all_iff set_own_order using JObj by (auto dest: size_entry)
  with JObj show ?thesis
    by (simp add: entries_bound_le)
next
  case (JArr xs)
  have "size (snd p) < Suc (size v)" if "p \<in> set (zip (map show_nat [0..<length xs]) xs)" for p
  proof -
    from that have "snd p \<in> set xs"
      by (metis prod.collapse set_zip_rightD)
    from size_member [OF this] JArr show ?thesis by simp
  qed
  then have "list_all (\<lambda>p. size (snd p) < Suc (size v)) (zip (map show_nat [0..<length xs]) xs)"
    unfolding list_all_iff by blast
  with JArr show ?thesis
    by (simp add: entries_bound_le)
next
  case (JStr s)
  have "list_all (\<lambda>p. size (snd p) < Suc (size v))
          (zip (map show_nat [0..<length s]) (map (\<lambda>c. JStr [c]) s))"
    unfolding list_all_iff by (auto dest!: set_zip_rightD)
  with JStr show ?thesis
    by (simp add: entries_bound_le)
qed simp_all

lemma schema_keys_not_index:
  "index_of_key ''properties'' = None" "index_of_key ''patternProperties'' = None"
  by (simp_all add: index_of_key_def all_digits_def is_digit_def char_code_def)

lemma entries_bound_schema_key:
  assumes "index_of_key k = None" "k \<noteq> ''length''"
  shows "entries_bound (object_entries (prop_value d k)) \<le> size d"
proof (cases d)
  case (JObj kvs)
  show ?thesis
  proof (cases "map_of kvs k")
    case None
    with JObj show ?thesis by simp
  next
    case (Some v)
    from size_map_of [OF Some] entries_bound_object_entries [of v] JObj Some
    show ?thesis by simp
  qed
next
  case (JArr xs)
  with assms show ?thesis by simp
next
  case (JStr s)
  with assms show ?thesis by simp
qed simp_all

text \<open>
  The outer loop runs over the two literal keys and is written out; \<open>extract_entries\<close>
  is the inner loop over \<open>Object.entries(data[key])\<close>, with the array \<open>properties\<close>
  as its accumulator. \<open>properties.push(...subs.map(...))\<close> appends.
\<close>

function extractFlatPolicyNamesFromPolicySchema :: "jsval \<Rightarrow> error + string list"
  and extract_entries :: "(string \<times> jsval) list \<Rightarrow> string list \<Rightarrow> error + string list"
where
  "extractFlatPolicyNamesFromPolicySchema data =
     (case get_prop data ''properties'' of
        Inl err \<Rightarrow> Inl err
      | Inr v1 \<Rightarrow>
          (case (if truthy v1 then extract_entries (object_entries v1) [] else Inr []) of
             Inl err \<Rightarrow> Inl err
           | Inr properties1 \<Rightarrow>
               (case get_prop data ''patternProperties'' of
                  Inl err \<Rightarrow> Inl err
                | Inr v2 \<Rightarrow>
                    if truthy v2 then extract_entries (object_entries v2) properties1
                    else Inr properties1)))"
| "extract_entries [] properties = Inr properties"
| "extract_entries ((name, entry) # rest) properties =
     (case extractFlatPolicyNamesFromPolicySchema entry of
        Inl err \<Rightarrow> Inl err
      | Inr subs \<Rightarrow>
          extract_entries rest
            ((properties @ [name])
             @ (if length subs > 0 then map (\<lambda>e. name @ ''_'' @ e) subs else [])))"
  by pat_completeness auto
termination
  by (relation "measures
        [\<lambda>x. case x of Inl d \<Rightarrow> Suc (size d) | Inr (es, ps) \<Rightarrow> entries_bound es,
         \<lambda>x. case x of Inl d \<Rightarrow> 0 | Inr (es, ps) \<Rightarrow> Suc (length es)]")
     (auto simp: get_prop_def entries_bound_schema_key schema_keys_not_index less_Suc_eq_le
        split: if_splits)


declare extractFlatPolicyNamesFromPolicySchema.simps [simp del]

section \<open>checkPolicySchemaChanges\<close>

text \<open>
  \<open>JSON.stringify\<close> with one argument: no indentation, members in the order the
  object enumerates them,
  a member whose value is \<open>undefined\<close> left out, \<open>undefined\<close> in an array written
  \<open>null\<close>, and \<open>undefined\<close> itself giving \<open>undefined\<close> (\<open>None\<close>). A string is
  quoted with the JSON escapes, and an integer is written in decimal (as it is below
  \<open>10^21\<close>).
\<close>

definition json_escape :: "char \<Rightarrow> string" where
  "json_escape c =
     (if c = CHR 0x22 then [CHR 0x5C, CHR 0x22]
      else if c = CHR 0x5C then [CHR 0x5C, CHR 0x5C]
      else if char_code c = 8 then [CHR 0x5C, CHR ''b'']
      else if char_code c = 12 then [CHR 0x5C, CHR ''f'']
      else if char_code c = 10 then [CHR 0x5C, CHR ''n'']
      else if char_code c = 13 then [CHR 0x5C, CHR ''r'']
      else if char_code c = 9 then [CHR 0x5C, CHR ''t'']
      else if char_code c < 32 then
        [CHR 0x5C, CHR ''u'', CHR ''0'', CHR ''0'',
         ''0123456789abcdef'' ! (char_code c div 16), ''0123456789abcdef'' ! (char_code c mod 16)]
      else [c])"

definition json_quote :: "string \<Rightarrow> string" where
  "json_quote s = [CHR 0x22] @ concat (map json_escape s) @ [CHR 0x22]"

fun join_comma :: "string list \<Rightarrow> string" where
  "join_comma [] = []"
| "join_comma [x] = x"
| "join_comma (x # y # ys) = x @ '','' @ join_comma (y # ys)"

fun member_texts :: "(string \<times> string option) list \<Rightarrow> string list" where
  "member_texts [] = []"
| "member_texts ((k, None) # ms) = member_texts ms"
| "member_texts ((k, Some t) # ms) = (json_quote k @ '':'' @ t) # member_texts ms"

fun stringify :: "jsval \<Rightarrow> string option"
  and stringify_elems :: "jsval list \<Rightarrow> string list"
  and stringify_members :: "(string \<times> jsval) list \<Rightarrow> (string \<times> string option) list"
where
  "stringify JUndefined = None"
| "stringify JNull = Some ''null''"
| "stringify (JBool b) = Some (if b then ''true'' else ''false'')"
| "stringify (JNum i) = Some (show_int i)"
| "stringify (JStr s) = Some (json_quote s)"
| "stringify (JArr xs) = Some (''['' @ join_comma (stringify_elems xs) @ '']'')"
| "stringify (JObj kvs) =
     Some (''{'' @ join_comma (member_texts (own_order (stringify_members kvs))) @ ''}'')"
| "stringify_elems [] = []"
| "stringify_elems (x # xs) =
     (case stringify x of None \<Rightarrow> ''null'' | Some t \<Rightarrow> t) # stringify_elems xs"
| "stringify_members [] = []"
| "stringify_members ((k, v) # kvs) = (k, stringify v) # stringify_members kvs"

text \<open>
  The function returns \<open>undefined\<close> (\<open>None\<close>) or an object with the three arrays.
  \<open>includes\<close> compares strings by content, and \<open>!=\<close> between two results of
  \<open>JSON.stringify\<close> is inequality of strings, with \<open>undefined\<close> equal to itself only.
  \<open>file.properties\<close> is truthy where \<open>changed\<close> is computed, so reading a property of
  it cannot raise.

  \<open>JSON.stringify(v[e])\<close> reads \<open>e\<close> along the prototype chain of \<open>v\<close>. An own
  property gives its value. Otherwise the name \<open>__proto__\<close> gives the prototype: the
  object prototype for an object (serialised \<open>{}\<close>), the array prototype for an array
  (\<open>[]\<close>), and for a string, a number and a boolean the prototype that wraps the empty
  string, zero and \<open>false\<close>. Every other inherited member of these prototypes is a
  function, which \<open>JSON.stringify\<close> gives \<open>undefined\<close>, as it does a member that
  does not exist.
\<close>

fun prototype_json :: "jsval \<Rightarrow> string option" where
  "prototype_json (JObj kvs) = Some ''{}''"
| "prototype_json (JArr xs) = Some ''[]''"
| "prototype_json (JStr s) = Some (json_quote [])"
| "prototype_json (JNum i) = Some ''0''"
| "prototype_json (JBool b) = Some ''false''"
| "prototype_json v = None"

definition member_json :: "jsval \<Rightarrow> string \<Rightarrow> string option" where
  "member_json v e =
     (if has_key v e then stringify (prop_value v e)
      else if e = ''__proto__'' then prototype_json v
      else None)"

definition property_json :: "jsval \<Rightarrow> string \<Rightarrow> string option" where
  \<comment> \<open>\<open>JSON.stringify(file.properties[e])\<close>\<close>
  "property_json file e = member_json (prop_value file ''properties'') e"

record diff =
  added :: "string list"
  removed :: "string list"
  changed :: "string list"

definition list_includes :: "string list \<Rightarrow> string \<Rightarrow> bool" where
  "list_includes keys e = (e \<in> set keys)"

definition checkPolicySchemaChanges :: "jsval \<Rightarrow> jsval \<Rightarrow> error + diff option" where
  "checkPolicySchemaChanges file1 file2 =
     (if \<not> truthy (opt_prop file1 ''properties'') then Inr None
      else if \<not> truthy (opt_prop file2 ''properties'') then Inr None
      else
        case extractFlatPolicyNamesFromPolicySchema file1 of
          Inl err \<Rightarrow> Inl err
        | Inr keys1 \<Rightarrow>
            (case extractFlatPolicyNamesFromPolicySchema file2 of
               Inl err \<Rightarrow> Inl err
             | Inr keys2 \<Rightarrow>
                 Inr (Some
                   \<lparr> added = filter (\<lambda>e. \<not> list_includes keys1 e) keys2,
                     removed = filter (\<lambda>e. \<not> list_includes keys2 e) keys1,
                     changed = filter
                       (\<lambda>e. list_includes keys1 e
                            \<and> property_json file2 e \<noteq> property_json file1 e)
                       keys2 \<rparr>)))"

section \<open>The schema nodes of the data model\<close>

text \<open>
  A schema node is a mapping whose \<open>properties\<close> and \<open>patternProperties\<close>, where
  present, are mappings from names to schema nodes.
\<close>

fun schema_node :: "jsval \<Rightarrow> bool"
  and schema_members :: "(string \<times> jsval) list \<Rightarrow> bool"
  and schema_children :: "(string \<times> jsval) list \<Rightarrow> bool"
where
  "schema_node (JObj kvs) = schema_members kvs"
| "schema_node v = False"
| "schema_members [] = True"
| "schema_members ((k, v) # kvs) =
     ((if k = ''properties'' \<or> k = ''patternProperties''
       then (case v of JObj cs \<Rightarrow> schema_children cs | _ \<Rightarrow> False)
       else True)
      \<and> schema_members kvs)"
| "schema_children [] = True"
| "schema_children ((n, c) # cs) = (schema_node c \<and> schema_children cs)"

text \<open>
  The named children of a node under a grouping key, in insertion order.
\<close>

definition insertion_children :: "jsval \<Rightarrow> string \<Rightarrow> (string \<times> jsval) list" where
  "insertion_children node key =
     (case node of
        JObj kvs \<Rightarrow> (case map_of kvs key of Some (JObj cs) \<Rightarrow> cs | _ \<Rightarrow> [])
      | _ \<Rightarrow> [])"

text \<open>
  The flattening as the specification words it, for comparison with the source function:
  for each of the two grouping keys present on the node, its named children in order;
  each child's own name bound to the child, then the child's flattened names prefixed
  with the child's name and an underscore. \<open>spec_flatten\<close> takes the children in the
  order the object enumerates them, \<open>insertion_flatten\<close> further below in insertion order.
\<close>

definition spec_children :: "jsval \<Rightarrow> string \<Rightarrow> (string \<times> jsval) list" where
  "spec_children node key = own_order (insertion_children node key)"

lemma entries_bound_insertion_children:
  "entries_bound (insertion_children node key) \<le> size node"
proof (cases node)
  case (JObj kvs)
  show ?thesis
  proof (cases "map_of kvs key")
    case None
    with JObj show ?thesis by (simp add: insertion_children_def)
  next
    case (Some v)
    note nk = \<open>node = JObj kvs\<close>
    show ?thesis
    proof (cases "\<exists>cs. v = JObj cs")
      case True
      then obtain cs where v: "v = JObj cs"
        by blast
      have "entries_bound cs \<le> Suc (size v)"
        unfolding v by (rule entries_bound_le) (auto simp: list_all_iff dest: size_entry)
      also have "\<dots> \<le> size node"
        using size_map_of [OF Some] nk by simp
      finally show ?thesis
        using nk Some v by (simp add: insertion_children_def)
    next
      case False
      then have "insertion_children node key = []"
        using nk Some by (cases v) (simp_all add: insertion_children_def)
      then show ?thesis
        by simp
    qed
  qed
qed (simp_all add: insertion_children_def)

lemma entries_bound_own_order: "entries_bound (own_order es) \<le> b" if "entries_bound es \<le> b"
proof -
  have "list_all (\<lambda>p. size (snd p) < b) es" if "entries_bound es \<le> b" for es
    using that by (induction es rule: entries_bound.induct) auto
  with that have "list_all (\<lambda>p. size (snd p) < b) (own_order es)"
    by (simp add: list_all_iff set_own_order)
  then show ?thesis
    by (rule entries_bound_le)
qed

lemma entries_bound_spec_children: "entries_bound (spec_children node key) \<le> size node"
  unfolding spec_children_def
  by (rule entries_bound_own_order) (rule entries_bound_insertion_children)

function spec_flatten :: "jsval \<Rightarrow> (string \<times> jsval) list"
  and spec_flatten_children :: "(string \<times> jsval) list \<Rightarrow> (string \<times> jsval) list"
where
  "spec_flatten node =
     spec_flatten_children (spec_children node ''properties'')
     @ spec_flatten_children (spec_children node ''patternProperties'')"
| "spec_flatten_children [] = []"
| "spec_flatten_children ((name, child) # rest) =
     ((name, child) # map (\<lambda>(n, sub). (name @ ''_'' @ n, sub)) (spec_flatten child))
     @ spec_flatten_children rest"
  by pat_completeness auto
termination
  by (relation "measures
        [\<lambda>x. case x of Inl d \<Rightarrow> Suc (size d) | Inr es \<Rightarrow> entries_bound es,
         \<lambda>x. case x of Inl d \<Rightarrow> 0 | Inr es \<Rightarrow> Suc (length es)]")
     (auto simp: entries_bound_spec_children less_Suc_eq_le)

declare spec_flatten.simps [simp del]

function insertion_flatten :: "jsval \<Rightarrow> (string \<times> jsval) list"
  and insertion_flatten_children :: "(string \<times> jsval) list \<Rightarrow> (string \<times> jsval) list"
where
  "insertion_flatten node =
     insertion_flatten_children (insertion_children node ''properties'')
     @ insertion_flatten_children (insertion_children node ''patternProperties'')"
| "insertion_flatten_children [] = []"
| "insertion_flatten_children ((name, child) # rest) =
     ((name, child) # map (\<lambda>(n, sub). (name @ ''_'' @ n, sub)) (insertion_flatten child))
     @ insertion_flatten_children rest"
  by pat_completeness auto
termination
  by (relation "measures
        [\<lambda>x. case x of Inl d \<Rightarrow> Suc (size d) | Inr es \<Rightarrow> entries_bound es,
         \<lambda>x. case x of Inl d \<Rightarrow> 0 | Inr es \<Rightarrow> Suc (length es)]")
     (auto simp: entries_bound_insertion_children less_Suc_eq_le)

declare insertion_flatten.simps [simp del]

text \<open>No child name of the node, at any depth of the flattening, is an array index.\<close>

fun no_index_names :: "jsval \<Rightarrow> bool"
  and no_index_members :: "(string \<times> jsval) list \<Rightarrow> bool"
  and no_index_children :: "(string \<times> jsval) list \<Rightarrow> bool"
where
  "no_index_names (JObj kvs) = no_index_members kvs"
| "no_index_names v = True"
| "no_index_members [] = True"
| "no_index_members ((k, v) # kvs) =
     ((if k = ''properties'' \<or> k = ''patternProperties''
       then (case v of JObj cs \<Rightarrow> no_index_children cs | _ \<Rightarrow> True)
       else True)
      \<and> no_index_members kvs)"
| "no_index_children [] = True"
| "no_index_children ((n, c) # cs) =
     (\<not> is_index_name n \<and> no_index_names c \<and> no_index_children cs)"

section \<open>Properties of compareVer\<close>

lemmas char_eval = char_code_def is_digit_def is_ver_char_def is_alnum_def to_lower_def

lemmas prep_eval = prep_def prep_array_def replace_tags.simps tag_segment_def strip_first_nonword_def
  show_int_def show_nat.simps trim_zero_tail.simps skip_zero_groups.simps match_tail_def
  all_dots_def

lemmas number_eval = string_to_number_def all_digits_def digits_value_def nearest_double_def
  to_int32_def double_tilde_def

lemmas loop_eval = compare_loop.simps array_get_def array_set_def Let_def

text \<open>The segments hold digits and minus signs only.\<close>

lemma digit_table: "k < 10 \<Longrightarrow> is_digit (''0123456789'' ! k)"
proof -
  have "list_all is_digit ''0123456789''"
    by (simp add: is_digit_def char_code_def)
  moreover assume "k < 10"
  ultimately show ?thesis
    by (simp add: list_all_length)
qed

lemma show_nat_digits: "list_all is_digit (show_nat n)"
proof (induction n rule: show_nat.induct)
  case (1 n)
  show ?case
  proof (cases "n < 10")
    case True
    then show ?thesis
      by (simp add: show_nat.simps [of n] digit_table)
  next
    case False
    with "1.IH" show ?thesis
      by (simp add: show_nat.simps [of n] digit_table)
  qed
qed

lemma tag_segment_chars: "list_all (\<lambda>c. seg_char c \<or> c = CHR ''.'') (tag_segment c)"
proof -
  have "list_all (\<lambda>c. seg_char c \<or> c = CHR ''.'') (show_int i)" for i
    using show_nat_digits [of "nat (- i)"] show_nat_digits [of "nat i"]
    by (auto simp: show_int_def seg_char_def list_all_iff)
  then show ?thesis
    by (simp add: tag_segment_def split: list.splits)
qed

lemma replace_tags_chars: "list_all (\<lambda>c. seg_char c \<or> c = CHR ''.'') (replace_tags t)"
proof (induction t rule: replace_tags.induct)
  case 1
  show ?case by (simp add: replace_tags.simps)
next
  case (2 x xs)
  show ?case
  proof (cases "is_ver_char x")
    case True
    with "2.IH"(1) show ?thesis
      by (auto simp: replace_tags.simps is_ver_char_def seg_char_def)
  next
    case False
    with "2.IH"(2) tag_segment_chars show ?thesis
      by (simp add: replace_tags.simps)
  qed
qed

lemma skip_zero_groups_subset: "set (skip_zero_groups s) \<subseteq> set s"
proof (induction s rule: skip_zero_groups.induct)
  case (3 a b r)
  show ?case
  proof (cases "a = CHR ''.'' \<and> b = CHR ''0''")
    case True
    with "3.IH" have "set (skip_zero_groups (a # b # r)) \<subseteq> set (dropWhile (\<lambda>c. c = CHR ''0'') r)"
      by (simp add: skip_zero_groups.simps)
    also have "\<dots> \<subseteq> set r"
      by (rule set_dropWhileD [THEN subsetI])
    finally show ?thesis by auto
  next
    case False
    then show ?thesis by (auto simp: skip_zero_groups.simps)
  qed
qed (simp_all add: skip_zero_groups.simps)

lemma set_after_dropWhile: "dropWhile P xs = y # ys \<Longrightarrow> set (takeWhile Q ys) \<subseteq> set xs"
proof -
  assume "dropWhile P xs = y # ys"
  then have "set ys \<subseteq> set (dropWhile P xs)"
    by auto
  also have "\<dots> \<subseteq> set xs"
    by (auto dest: set_dropWhileD)
  finally show ?thesis
    by (auto dest: set_takeWhileD)
qed

lemma match_tail_subset: "match_tail s = Some (g1, g2) \<Longrightarrow> set (g1 @ g2) \<subseteq> set s"
  by (auto simp: match_tail_def Let_def split: list.splits if_splits
      dest: set_takeWhileD set_after_dropWhile [THEN subsetD])

lemma trim_zero_tail_subset: "set (trim_zero_tail s) \<subseteq> set s"
proof (induction s rule: trim_zero_tail.induct)
  case (1 s)
  show ?case
  proof (cases "match_tail (skip_zero_groups s)")
    case (Some g)
    obtain g1 g2 where g: "g = (g1, g2)" by (cases g)
    from match_tail_subset [of "skip_zero_groups s" g1 g2] Some g skip_zero_groups_subset [of s]
    show ?thesis
      by (simp add: trim_zero_tail.simps [of s]) blast
  next
    case None
    show ?thesis
    proof (cases s)
      case Nil
      with None show ?thesis by (simp add: trim_zero_tail.simps [of "[]"])
    next
      case (Cons x xs)
      with None have "trim_zero_tail s = x # trim_zero_tail xs"
        by (simp add: trim_zero_tail.simps [of "x # xs"])
      with Cons "1.IH" [OF None Cons] show ?thesis
        by auto
    qed
  qed
qed

lemma split_dots_chars: "p \<in> set (split_dots s) \<Longrightarrow> set p \<subseteq> set s - {CHR ''.''}"
proof (induction s arbitrary: p)
  case Nil
  then show ?case by simp
next
  case (Cons x xs)
  show ?case
  proof (cases "x = CHR ''.''")
    case True
    with Cons show ?thesis by auto
  next
    case False
    show ?thesis
    proof (cases "split_dots xs")
      case Nil
      with Cons.prems False show ?thesis by auto
    next
      case (Cons q qs)
      with Cons.prems False have "p = x # q \<or> p \<in> set qs" by auto
      with Cons.IH [of q] Cons.IH [of p] Cons False show ?thesis by auto
    qed
  qed
qed

lemma prep_segment_chars: "p \<in> set (prep t) \<Longrightarrow> list_all seg_char p"
proof -
  assume "p \<in> set (prep t)"
  then have "set p \<subseteq> set (trim_zero_tail (replace_tags t)) - {CHR ''.''}"
    by (simp add: prep_def split_dots_chars)
  also have "\<dots> \<subseteq> set (replace_tags t) - {CHR ''.''}"
    using trim_zero_tail_subset by blast
  finally show ?thesis
    using replace_tags_chars [of t] by (auto simp: list_all_iff)
qed

text \<open>The loop is a lexicographic comparison of the two zero-padded sequences.\<close>

lemma to_int32_range: "- (2 ^ 31) \<le> to_int32 x \<and> to_int32 x < 2 ^ 31"
proof (cases x)
  case (Finite i)
  have "0 \<le> i mod 4294967296" "i mod 4294967296 < 4294967296"
    by simp_all
  then show ?thesis
    using Finite by (auto simp: to_int32_def Let_def)
qed (simp_all add: to_int32_def)

lemma to_int32_small: "- (2 ^ 31) \<le> i \<Longrightarrow> i < 2 ^ 31 \<Longrightarrow> to_int32 (Finite i) = i"
proof (cases "0 \<le> i")
  case True
  assume "i < 2 ^ 31"
  with True have "i mod 2 ^ 32 = i" by (simp add: mod_pos_pos_trivial)
  with \<open>i < 2 ^ 31\<close> show ?thesis by (simp add: to_int32_def Let_def)
next
  case False
  assume lo: "- (2 ^ 31) \<le> i"
  have "(i + 2 ^ 32) mod 2 ^ 32 = i + 2 ^ 32"
    using lo False by (intro mod_pos_pos_trivial) simp_all
  then have "i mod 2 ^ 32 = i + 2 ^ 32" by simp
  with False lo show ?thesis by (simp add: to_int32_def Let_def)
qed

lemma double_tilde_idem: "double_tilde (Some (Num (double_tilde x))) = double_tilde x"
proof -
  have "to_int32 (Finite (to_int32 y)) = to_int32 y" for y
    using to_int32_range [of y] by (intro to_int32_small) simp_all
  then show ?thesis
    by (simp add: double_tilde_def split: option.splits elem.splits)
qed

lemma array_get_set_same: "array_get (array_set a i v) i = Some v"
  by (simp add: array_get_def array_set_def nth_append)

lemma array_get_set_other: "j \<noteq> i \<Longrightarrow> array_get (array_set a i v) j = array_get a j"
  by (auto simp: array_get_def array_set_def nth_append nth_Cons')

lemma seg_array_set: "seg (array_set a i (Num (double_tilde (array_get a i)))) = seg a"
proof
  fix j
  show "seg (array_set a i (Num (double_tilde (array_get a i)))) j = seg a j"
    by (cases "j = i") (simp_all add: seg_def array_get_set_same array_get_set_other double_tilde_idem)
qed

lemma compare_loop_lex:
  "compare_loop a b i = lex_cmp (seg a) (seg b) i (max (length a) (length b) - i)"
proof (induction a b i rule: compare_loop.induct)
  case (1 a b i)
  let ?a = "array_set a i (Num (double_tilde (array_get a i)))"
  let ?b = "array_set b i (Num (double_tilde (array_get b i)))"
  have sa: "double_tilde (array_get a i) = seg a i"
    and sb: "double_tilde (array_get b i) = seg b i"
    by (simp_all add: seg_def)
  show ?case
  proof (cases "i < max (length a) (length b)")
    case False
    then have "max (length a) (length b) - i = 0" by arith
    with False show ?thesis by (simp add: compare_loop.simps [of a b i])
  next
    case True
    then obtain k where k: "max (length a) (length b) - i = Suc k"
      by (metis Suc_diff_Suc)
    have len: "max (length ?a) (length ?b) = max (length a) (length b)"
      using True by (auto simp: length_array_set)
    show ?thesis
    proof (cases "seg a i = seg b i")
      case False
      then show ?thesis
        using True k by (simp add: compare_loop.simps [of a b i] Let_def sa sb)
    next
      case eq: True
      then have "\<not> double_tilde (array_get b i) < double_tilde (array_get a i)"
        "\<not> double_tilde (array_get a i) < double_tilde (array_get b i)"
        by (simp_all add: sa sb)
      from "1.IH" [OF True refl refl refl refl this]
      have "compare_loop ?a ?b (Suc i)
            = lex_cmp (seg ?a) (seg ?b) (Suc i) (max (length ?a) (length ?b) - Suc i)" .
      also have "\<dots> = lex_cmp (seg a) (seg b) (Suc i) k"
      proof -
        from k have "max (length a) (length b) - Suc i = k" by arith
        then show ?thesis by (simp add: seg_array_set len)
      qed
      finally have rec: "compare_loop ?a ?b (Suc i) = lex_cmp (seg a) (seg b) (Suc i) k" .
      have "compare_loop a b i = compare_loop ?a ?b (Suc i)"
        using True eq by (simp add: compare_loop.simps [of a b i] Let_def sa sb)
      also note rec
      also have "lex_cmp (seg a) (seg b) (Suc i) k = lex_cmp (seg a) (seg b) i (Suc k)"
        using eq by simp
      finally show ?thesis
        by (simp only: k)
    qed
  qed
qed

lemma lex_cmp_values: "lex_cmp f g i k \<in> {- 1, 0, 1}"
  by (induction k arbitrary: i) simp_all

lemma lex_cmp_flip: "lex_cmp f g i k = - lex_cmp g f i k"
  by (induction k arbitrary: i) simp_all

lemma lex_cmp_trans:
  "lex_cmp f g i k \<le> 0 \<Longrightarrow> lex_cmp g h i k \<le> 0 \<Longrightarrow> lex_cmp f h i k \<le> 0"
proof (induction k arbitrary: i)
  case 0
  then show ?case by simp
next
  case (Suc k)
  from Suc.prems have fg: "f i \<le> g i" and gh: "g i \<le> h i"
    by (auto split: if_splits)
  show ?case
  proof (cases "f i = g i \<and> g i = h i")
    case True
    with Suc show ?thesis by simp
  next
    case False
    with fg gh have "f i < h i" by auto
    then show ?thesis by simp
  qed
qed

lemma lex_cmp_equal: "(\<And>j. i \<le> j \<Longrightarrow> f j = g j) \<Longrightarrow> lex_cmp f g i k = 0"
  by (induction k arbitrary: i) simp_all

lemma lex_cmp_extend:
  "(\<And>j. i + k \<le> j \<Longrightarrow> f j = g j) \<Longrightarrow> lex_cmp f g i (k + m) = lex_cmp f g i k"
proof (induction k arbitrary: i)
  case 0
  then show ?case by (simp add: lex_cmp_equal)
next
  case (Suc k)
  have "lex_cmp f g (Suc i) (k + m) = lex_cmp f g (Suc i) k"
    by (rule Suc.IH) (simp add: Suc.prems)
  then show ?case by simp
qed

lemma seg_past_end: "length a \<le> j \<Longrightarrow> seg a j = 0"
  by (simp add: seg_def array_get_def double_tilde_def to_int32_def)

lemma compareVer_lex:
  assumes "a \<noteq> ''*''" "b \<noteq> ''*''"
    and n: "max (length (prep_array a)) (length (prep_array b)) \<le> n"
  shows "compareVer a b = lex_cmp (seg (prep_array a)) (seg (prep_array b)) 0 n"
proof -
  let ?k = "max (length (prep_array a)) (length (prep_array b))"
  have "lex_cmp (seg (prep_array a)) (seg (prep_array b)) 0 (?k + (n - ?k))
        = lex_cmp (seg (prep_array a)) (seg (prep_array b)) 0 ?k"
    by (rule lex_cmp_extend) (simp add: seg_past_end)
  moreover have "?k + (n - ?k) = n"
    using n by simp
  ultimately show ?thesis
    using assms(1,2) by (simp add: compareVer_def compare_loop_lex)
qed

lemma compareVer_wild_right: "compareVer a ''*'' = (if a = ''*'' then 0 else - 1)"
  by (simp add: compareVer_def)

lemma compareVer_wild_left: "compareVer ''*'' b = (if b = ''*'' then 0 else 1)"
  by (simp add: compareVer_def)

lemma compareVer_flip: "compareVer a b = - compareVer b a"
proof (cases "a = ''*'' \<or> b = ''*''")
  case True
  then show ?thesis
    by (auto simp: compareVer_wild_left compareVer_wild_right)
next
  case False
  then show ?thesis
    using lex_cmp_flip [of "seg (prep_array a)" "seg (prep_array b)" 0]
    by (simp add: compareVer_lex [of a b "max (length (prep_array a)) (length (prep_array b))"]
        compareVer_lex [of b a "max (length (prep_array a)) (length (prep_array b))"] max.commute)
qed

lemma compareVer_trans:
  assumes ab: "compareVer a b \<le> 0" and bc: "compareVer b c \<le> 0"
  shows "compareVer a c \<le> 0"
proof (cases "c = ''*''")
  case True
  then show ?thesis by (simp add: compareVer_wild_right)
next
  case c: False
  with bc have b: "b \<noteq> ''*''"
    by (auto simp: compareVer_wild_left)
  with ab have a: "a \<noteq> ''*''"
    by (auto simp: compareVer_wild_left)
  define n where "n = max (length (prep_array a)) (max (length (prep_array b)) (length (prep_array c)))"
  have "compareVer a b = lex_cmp (seg (prep_array a)) (seg (prep_array b)) 0 n"
    "compareVer b c = lex_cmp (seg (prep_array b)) (seg (prep_array c)) 0 n"
    "compareVer a c = lex_cmp (seg (prep_array a)) (seg (prep_array c)) 0 n"
    using a b c by (simp_all add: compareVer_lex n_def)
  with ab bc show ?thesis
    using lex_cmp_trans [of "seg (prep_array a)" "seg (prep_array b)" 0 n "seg (prep_array c)"]
    by simp
qed

lemma compareVer_refl: "compareVer v v = 0"
  using compareVer_flip [of v v] by simp

lemma compareVer_values: "compareVer a b \<in> {- 1, 0, 1}"
  using lex_cmp_values [of "seg (prep_array a)" "seg (prep_array b)" 0]
  by (simp add: compareVer_def compare_loop_lex)

text \<open>
  Claim C1. \<open>compareVer\<close> induces a total order on version tokens: for all strings
  \<open>a\<close> and \<open>b\<close>, \<open>compareVer a b\<close> is the negation of \<open>compareVer b a\<close>
  (antisymmetry), and for all \<open>a\<close>, \<open>b\<close>, \<open>c\<close>, if \<open>compareVer a b \<le> 0\<close> and
  \<open>compareVer b c \<le> 0\<close> then \<open>compareVer a c \<le> 0\<close> (transitivity).
\<close>

theorem compareVer_total_order:
  "compareVer a b = - compareVer b a
   \<and> (compareVer a b \<le> 0 \<longrightarrow> compareVer b c \<le> 0 \<longrightarrow> compareVer a c \<le> 0)"
  using compareVer_flip compareVer_trans by blast

theorem compareVer_total_order_witness:
  "compareVer ''91.0a1'' ''91.0'' = - compareVer ''91.0'' ''91.0a1''
   \<and> compareVer ''91.0a1'' ''91.0'' \<le> 0 \<and> compareVer ''91.0'' ''102.0'' \<le> 0
   \<and> compareVer ''91.0a1'' ''102.0'' \<le> 0"
proof -
  have ab: "compareVer ''91.0a1'' ''91.0'' \<le> 0"
    by (simp add: compareVer_def prep_eval char_eval number_eval loop_eval)
  have bc: "compareVer ''91.0'' ''102.0'' \<le> 0"
    by (simp add: compareVer_def prep_eval char_eval number_eval loop_eval)
  from compareVer_total_order [of "''91.0a1''" "''91.0''" "''102.0''"] ab bc
  show ?thesis by blast
qed

text \<open>
  Claim C2. For every version string \<open>v\<close> other than the literal \<open>*\<close>,
  \<open>compareVer v "*"\<close> is \<open>-1\<close> and \<open>compareVer "*" v\<close> is \<open>1\<close>, and
  \<open>compareVer "*" "*"\<close> is \<open>0\<close>: the wildcard is greater than every other value and
  equal to itself.
\<close>

theorem compareVer_wildcard:
  "v \<noteq> ''*'' \<Longrightarrow> compareVer v ''*'' = - 1 \<and> compareVer ''*'' v = 1 \<and> compareVer ''*'' ''*'' = 0"
  by (simp add: compareVer_def)

theorem compareVer_wildcard_witness:
  "''91.0'' \<noteq> ''*'' \<and> compareVer ''91.0'' ''*'' = - 1 \<and> compareVer ''*'' ''91.0'' = 1
   \<and> compareVer ''*'' ''*'' = 0"
proof -
  have ne: "''91.0'' \<noteq> ''*''" by simp
  from compareVer_wildcard [OF ne] ne show ?thesis by blast
qed

text \<open>
  Claim C3. The edge cases: \<open>"91.0a1"\<close> is less than \<open>"91.0"\<close> (a pre-release is less
  than the release), \<open>"4"\<close> equals \<open>"4.0.0"\<close>, \<open>"1.0.0"\<close> equals \<open>"1.0.0.0"\<close>,
  \<open>"102.0"\<close> is greater than \<open>"91.0"\<close>, and \<open>"91.0"\<close> equals itself.
\<close>

theorem compareVer_edge_cases:
  "compareVer ''91.0a1'' ''91.0'' = - 1 \<and> compareVer ''4'' ''4.0.0'' = 0
   \<and> compareVer ''1.0.0'' ''1.0.0.0'' = 0 \<and> compareVer ''102.0'' ''91.0'' = 1
   \<and> compareVer ''91.0'' ''91.0'' = 0"
  by (simp add: compareVer_def prep_eval char_eval number_eval loop_eval)


lemma digits_are_ver_chars:
  "list_all is_digit m \<Longrightarrow> takeWhile (\<lambda>c. \<not> is_ver_char c) m = []
     \<and> dropWhile (\<lambda>c. \<not> is_ver_char c) m = m"
  by (cases m) (simp_all add: is_ver_char_def)

lemma replace_tags_digits: "list_all is_digit m \<Longrightarrow> replace_tags m = m"
  by (induction m) (simp_all add: replace_tags.simps is_ver_char_def)

lemma takeWhile_all: "list_all P m \<Longrightarrow> takeWhile P m = m \<and> dropWhile P m = []"
  by (induction m) simp_all

lemma digit_not_dot: "is_digit c \<Longrightarrow> c \<noteq> CHR ''.''"
  by (auto simp: is_digit_def char_code_def)

lemma split_dots_digits: "list_all is_digit m \<Longrightarrow> split_dots m = [m]"
  by (induction m) (auto simp: digit_not_dot)

lemma prep_tag_digits:
  assumes "all_digits m"
  shows "prep (''91.0rc'' @ m) = [''91'', ''-65422'', m]"
proof -
  from assms have m: "list_all is_digit m" and ne: "m \<noteq> []"
    by (simp_all add: all_digits_def)
  have vc: "is_ver_char CHR ''9''" "is_ver_char CHR ''1''" "is_ver_char CHR ''.''"
    "is_ver_char CHR ''0''" "\<not> is_ver_char CHR ''r''" "\<not> is_ver_char CHR ''c''"
    by (simp_all add: char_eval)
  have 1: "replace_tags (''91.0rc'' @ m) = ''91.0.-65422.'' @ m"
    by (simp add: vc digits_are_ver_chars [OF m] replace_tags_digits [OF m] replace_tags.simps
        tag_segment_def strip_first_nonword_def show_int_def show_nat.simps
        is_alnum_def is_digit_def to_lower_def char_code_def)
  have 2: "trim_zero_tail (''91.0.-65422.'' @ m) = ''91.-65422.'' @ m"
    using ne
    by (simp add: takeWhile_all [OF m] trim_zero_tail.simps skip_zero_groups.simps
        match_tail_def all_dots_def char_eval)
  have 3: "split_dots (''91.-65422.'' @ m) = [''91'', ''-65422'', m]"
    using split_dots_digits [OF m] by simp
  show ?thesis
    by (simp only: prep_def 1 2 3)
qed

lemma string_to_number_digits:
  assumes "all_digits m" "digits_value m < 2 ^ 31"
  shows "double_tilde (Some (Str m)) = int (digits_value m)"
proof -
  from assms(2) have "digits_value m < 2 ^ 53"
    by simp
  then have "string_to_number m = Finite (int (digits_value m))"
    using assms(1) by (auto simp: string_to_number_def nearest_double_def all_digits_def)
  moreover have "to_int32 (Finite (int (digits_value m))) = int (digits_value m)"
    using assms(2) by (intro to_int32_small) simp_all
  ultimately show ?thesis
    by (simp add: double_tilde_def)
qed

text \<open>
  Claim C9 says that the digits after a tag are not compared as numbers, so that
  \<open>compareVer "91.0rc10" "91.0rc2"\<close> is not \<open>1\<close>. The code does compare them: the tag
  becomes a segment of its own between two dots, the digits after it are the next
  segment, and the loop converts every segment to a number. Claim C9 as amended: for
  decimal digit strings \<open>m\<close> and \<open>n\<close> with values below \<open>2^31\<close>, comparing
  \<open>"91.0rc" + m\<close> with \<open>"91.0rc" + n\<close> gives the order of the two values; of the tag only
  the first letter is used.
\<close>

theorem tag_suffix_compared_as_number:
  assumes "all_digits m" "all_digits n" "digits_value m < 2 ^ 31" "digits_value n < 2 ^ 31"
  shows "compareVer (''91.0rc'' @ m) (''91.0rc'' @ n) =
           (if digits_value n < digits_value m then 1
            else if digits_value m < digits_value n then - 1 else 0)"
proof -
  have c: "double_tilde (Some (Str ''91'')) = 91" "double_tilde (Some (Str ''-65422'')) = - 65422"
    by (simp_all add: number_eval char_eval)
  show ?thesis
    unfolding compareVer_def prep_array_def prep_tag_digits [OF assms(1)]
      prep_tag_digits [OF assms(2)] compare_loop_lex
    by (simp add: string_to_number_digits [OF assms(1,3)] string_to_number_digits [OF assms(2,4)]
        seg_def array_get_def c eval_nat_numeral)
qed

theorem tag_suffix_compared_as_number_witness:
  "all_digits ''10'' \<and> all_digits ''2'' \<and> digits_value ''10'' < 2 ^ 31 \<and> digits_value ''2'' < 2 ^ 31
   \<and> compareVer ''91.0rc10'' ''91.0rc2'' = 1"
proof -
  have h: "all_digits ''10''" "all_digits ''2''" "digits_value ''10'' < 2 ^ 31" "digits_value ''2'' < 2 ^ 31"
    by (simp_all add: all_digits_def digits_value_def char_eval)
  have v: "digits_value ''10'' = 10" "digits_value ''2'' = 2"
    by (simp_all add: digits_value_def char_eval)
  from tag_suffix_compared_as_number [OF h] h v show ?thesis
    by simp
qed

text \<open>Claim C9 as stated fails at its own example: the result is \<open>1\<close>.\<close>

theorem multi_digit_suffix_counterexample:
  "prep ''91.0rc10'' = [''91'', ''-65422'', ''10'']
   \<and> prep ''91.0rc2'' = [''91'', ''-65422'', ''2'']
   \<and> compareVer ''91.0rc10'' ''91.0rc2'' = 1"
  by (simp add: compareVer_def prep_eval char_eval number_eval loop_eval)

text \<open>Every segment is numeric: the forms of the pieces through \<open>prep\<close>.\<close>

lemma split_dots_nonempty: "split_dots s \<noteq> []"
  by (induction s) (auto split: list.splits)

lemma split_dots_append_dot:
  "split_dots (u @ CHR ''.'' # v) = split_dots u @ split_dots v"
proof (induction u)
  case Nil
  show ?case by simp
next
  case (Cons x u)
  obtain p ps where "split_dots u = p # ps"
    using split_dots_nonempty [of u] by (cases "split_dots u") auto
  with Cons show ?case
    by simp
qed

lemma split_dots_no_dot: "CHR ''.'' \<notin> set p \<Longrightarrow> split_dots p = [p]"
  by (induction p) auto

lemma show_nat_nonempty: "show_nat n \<noteq> []"
  by (subst show_nat.simps) simp

lemma tag_body_numeric:
  "tag_segment c = CHR ''.'' # b @ ''.'' \<Longrightarrow> numeric_segment b \<and> CHR ''.'' \<notin> set b"
proof -
  assume t: "tag_segment c = CHR ''.'' # b @ ''.''"
  show ?thesis
  proof (cases "map to_lower (strip_first_nonword c)")
    case Nil
    with t show ?thesis by (simp add: tag_segment_def numeric_segment_def)
  next
    case (Cons x xs)
    have "(of_char x :: nat) mod 256 = of_char x"
      by (rule of_char_mod_256)
    then have "char_code x < 256"
      unfolding char_code_def by (metis mod_less_divisor zero_less_numeral)
    then have "int (char_code x) - 65536 < 0"
      by arith
    with t Cons have b: "b = CHR ''-'' # show_nat (nat (- (int (char_code x) - 65536)))"
      by (simp add: tag_segment_def show_int_def)
    have "all_digits (show_nat n)" for n
      by (simp add: all_digits_def show_nat_digits show_nat_nonempty)
    moreover have "CHR ''.'' \<notin> set (show_nat n)" for n
      using show_nat_digits [of n] by (auto simp: list_all_iff dest: digit_not_dot)
    ultimately show ?thesis
      by (simp add: b numeric_segment_def)
  qed
qed

lemma tag_segment_form: "\<exists>b. tag_segment c = CHR ''.'' # b @ ''.''"
  by (simp add: tag_segment_def)

lemma replace_tags_pieces: "pieces_ok (replace_tags t)"
proof (induction t rule: replace_tags.induct)
  case 1
  show ?case by (simp add: replace_tags.simps pieces_ok_def numeric_segment_def)
next
  case (2 x xs)
  show ?case
  proof (cases "is_ver_char x")
    case True
    have r: "replace_tags (x # xs) = x # replace_tags xs"
      using True by (simp add: replace_tags.simps)
    from "2.IH"(1) [OF True] obtain p ps where
      sp: "split_dots (replace_tags xs) = p # ps" and p: "list_all is_digit p"
      and ps: "list_all numeric_segment (p # ps)"
      by (cases "split_dots (replace_tags xs)") (auto simp: pieces_ok_def split_dots_nonempty)
    show ?thesis
    proof (cases "x = CHR ''.''")
      case True
      then have "split_dots (replace_tags (x # xs)) = [] # p # ps"
        unfolding r using sp by simp
      with ps show ?thesis
        by (simp add: pieces_ok_def numeric_segment_def)
    next
      case False
      with True have d: "is_digit x" by (simp add: is_ver_char_def)
      with p have n: "numeric_segment (x # p)"
        by (simp add: numeric_segment_def all_digits_def)
      from False have "split_dots (replace_tags (x # xs)) = (x # p) # ps"
        unfolding r using sp by simp
      with n ps p d show ?thesis
        by (simp add: pieces_ok_def)
    qed
  next
    case False
    let ?run = "x # takeWhile (\<lambda>c. \<not> is_ver_char c) xs"
    let ?rest = "replace_tags (dropWhile (\<lambda>c. \<not> is_ver_char c) xs)"
    obtain b where b: "tag_segment ?run = CHR ''.'' # b @ ''.''"
      using tag_segment_form by blast
    from tag_body_numeric [OF b] have nb: "numeric_segment b" and nd: "CHR ''.'' \<notin> set b"
      by simp_all
    have r: "replace_tags (x # xs) = CHR ''.'' # (b @ CHR ''.'' # ?rest)"
      using False b by (simp add: replace_tags.simps)
    have "split_dots (replace_tags (x # xs)) = [] # b # split_dots ?rest"
      by (simp add: r split_dots_append_dot split_dots_no_dot [OF nd])
    with "2.IH"(2) [OF False] nb show ?thesis
      by (simp add: pieces_ok_def numeric_segment_def)
  qed
qed

lemma skip_zero_groups_dot:
  "skip_zero_groups s = CHR ''.'' # r \<Longrightarrow> \<exists>r'. s = CHR ''.'' # r'"
  by (cases s rule: skip_zero_groups.cases) (auto simp: skip_zero_groups.simps split: if_splits)

lemma match_tail_dot: "match_tail s = Some g \<Longrightarrow> \<exists>r. s = CHR ''.'' # r"
  by (auto simp: match_tail_def split: list.splits if_splits)

lemma match_tail_pieces:
  assumes "match_tail s = Some (g1, g2)"
  shows "\<exists>ps. split_dots (g1 @ g2) = [] # ps \<and> list_all numeric_segment ps"
proof -
  have tw: "list_all is_digit (takeWhile is_digit r)" for r
    by (simp add: list_all_iff) (auto dest: set_takeWhileD)
  have nd: "CHR ''.'' \<notin> set (takeWhile is_digit r)" for r
    using tw [of r] by (auto simp: list_all_iff dest: digit_not_dot)
  from assms obtain r where g1: "g1 = CHR ''.'' # CHR ''-'' # takeWhile is_digit r"
    and ne: "takeWhile is_digit r \<noteq> []"
    and g2: "g2 = [] \<or> (\<exists>r2. g2 = CHR ''.'' # takeWhile is_digit r2 \<and> takeWhile is_digit r2 \<noteq> [])"
    by (auto simp: match_tail_def Let_def split: list.splits if_splits)
  have n1: "numeric_segment (CHR ''-'' # takeWhile is_digit r)"
    using ne tw [of r] by (simp add: numeric_segment_def all_digits_def)
  have d1: "CHR ''.'' \<notin> set (CHR ''-'' # takeWhile is_digit r)"
    using nd [of r] by simp
  from g2 show ?thesis
  proof
    assume "g2 = []"
    then have "split_dots (g1 @ g2) = [] # [CHR ''-'' # takeWhile is_digit r]"
      using split_dots_no_dot [OF d1] by (simp add: g1)
    with n1 show ?thesis by simp
  next
    assume "\<exists>r2. g2 = CHR ''.'' # takeWhile is_digit r2 \<and> takeWhile is_digit r2 \<noteq> []"
    then obtain r2 where r2: "g2 = CHR ''.'' # takeWhile is_digit r2" "takeWhile is_digit r2 \<noteq> []"
      by blast
    have "split_dots (g1 @ g2)
          = [] # split_dots ((CHR ''-'' # takeWhile is_digit r) @ CHR ''.'' # takeWhile is_digit r2)"
      by (simp add: g1 r2)
    also have "\<dots> = [] # [CHR ''-'' # takeWhile is_digit r, takeWhile is_digit r2]"
      unfolding split_dots_append_dot
      using split_dots_no_dot [OF d1] split_dots_no_dot [OF nd [of r2]] by simp
    finally show ?thesis
      using n1 r2(2) tw [of r2] by (simp add: numeric_segment_def all_digits_def)
  qed
qed

lemma trim_zero_tail_first: "hd (split_dots (trim_zero_tail s)) = hd (split_dots s)"
proof (induction s rule: trim_zero_tail.induct)
  case (1 s)
  show ?case
  proof (cases "match_tail (skip_zero_groups s)")
    case (Some g)
    obtain g1 g2 where g: "g = (g1, g2)" by (cases g)
    from match_tail_pieces [of "skip_zero_groups s" g1 g2] Some g
    have a: "hd (split_dots (trim_zero_tail s)) = []"
      by (auto simp: trim_zero_tail.simps [of s])
    from match_tail_dot [OF Some] obtain r where "skip_zero_groups s = CHR ''.'' # r"
      by blast
    from skip_zero_groups_dot [OF this] have "hd (split_dots s) = []"
      by auto
    with a show ?thesis by simp
  next
    case None
    show ?thesis
    proof (cases s)
      case Nil
      with None show ?thesis by (simp add: trim_zero_tail.simps [of "[]"])
    next
      case (Cons x xs)
      with None have t: "trim_zero_tail s = x # trim_zero_tail xs"
        by (simp add: trim_zero_tail.simps [of "x # xs"])
      obtain p ps where sp: "split_dots xs = p # ps"
        using split_dots_nonempty [of xs] by (cases "split_dots xs") auto
      obtain q qs where sq: "split_dots (trim_zero_tail xs) = q # qs"
        using split_dots_nonempty [of "trim_zero_tail xs"]
        by (cases "split_dots (trim_zero_tail xs)") auto
      from "1.IH" [OF None Cons] sp sq have "q = p" by simp
      moreover from t Cons have "trim_zero_tail (x # xs) = x # trim_zero_tail xs"
        by simp
      ultimately show ?thesis
        using sp sq unfolding Cons by simp
    qed
  qed
qed

lemma numeric_segment_Nil: "numeric_segment []"
  by (simp add: numeric_segment_def)

lemma numeric_segment_tail: "numeric_segment (x # p) \<Longrightarrow> numeric_segment p"
  by (auto simp: numeric_segment_def all_digits_def)

lemma trim_zero_tail_pieces:
  "list_all numeric_segment (split_dots s)
   \<Longrightarrow> list_all numeric_segment (split_dots (trim_zero_tail s))"
proof (induction s rule: trim_zero_tail.induct)
  case (1 s)
  show ?case
  proof (cases "match_tail (skip_zero_groups s)")
    case (Some g)
    obtain g1 g2 where g: "g = (g1, g2)" by (cases g)
    from match_tail_pieces [of "skip_zero_groups s" g1 g2] Some g
    show ?thesis
      by (auto simp: trim_zero_tail.simps [of s] numeric_segment_Nil)
  next
    case None
    show ?thesis
    proof (cases s)
      case Nil
      with None show ?thesis
        by (simp add: trim_zero_tail.simps [of "[]"] numeric_segment_Nil)
    next
      case (Cons x xs)
      with None have t: "trim_zero_tail s = x # trim_zero_tail xs"
        by (simp add: trim_zero_tail.simps [of "x # xs"])
      obtain p ps where sp: "split_dots xs = p # ps"
        using split_dots_nonempty [of xs] by (cases "split_dots xs") auto
      obtain q qs where sq: "split_dots (trim_zero_tail xs) = q # qs"
        using split_dots_nonempty [of "trim_zero_tail xs"]
        by (cases "split_dots (trim_zero_tail xs)") auto
      from trim_zero_tail_first [of xs] sp sq have qp: "q = p" by simp
      show ?thesis
      proof (cases "x = CHR ''.''")
        case True
        with "1.prems" Cons have "list_all numeric_segment (split_dots xs)" by simp
        from "1.IH" [OF None Cons this] True show ?thesis
          by (simp add: t numeric_segment_Nil)
      next
        case False
        with "1.prems" Cons sp have xp: "numeric_segment (x # p)" and ps: "list_all numeric_segment ps"
          by simp_all
        from numeric_segment_tail [OF xp] ps sp have "list_all numeric_segment (split_dots xs)"
          by simp
        from "1.IH" [OF None Cons this] sq have "list_all numeric_segment qs"
          by simp
        with False xp sq qp show ?thesis
          by (simp add: t)
      qed
    qed
  qed
qed

lemma prep_numeric: "list_all numeric_segment (prep t)"
  using replace_tags_pieces [of t]
  by (simp add: prep_def pieces_ok_def trim_zero_tail_pieces)

lemma numeric_segment_number: "numeric_segment p \<Longrightarrow> string_to_number p \<noteq> NaN"
  by (auto simp: numeric_segment_def string_to_number_def split: option.splits)

lemma prep_never_NaN: "list_all (\<lambda>p. string_to_number p \<noteq> NaN) (prep t)"
  using prep_numeric [of t] by (auto simp: list_all_iff numeric_segment_number)

lemma prep_nonempty: "prep t \<noteq> []"
  by (simp add: prep_def split_dots_nonempty)

lemma strip_no_alnum: "list_all (\<lambda>c. \<not> is_alnum c) c \<Longrightarrow> strip_first_nonword c = []"
  by (cases c) (auto simp: strip_first_nonword_def list_all_iff)

lemma no_alnum_replace_tags:
  "list_all (\<lambda>c. \<not> is_alnum c) t \<Longrightarrow> set (replace_tags t) \<subseteq> {CHR ''.''}"
proof (induction t rule: replace_tags.induct)
  case 1
  show ?case by (simp add: replace_tags.simps)
next
  case (2 x xs)
  show ?case
  proof (cases "is_ver_char x")
    case True
    with "2.prems" have "x = CHR ''.''"
      by (simp add: is_ver_char_def is_alnum_def)
    with True "2.IH"(1) "2.prems" show ?thesis
      by (simp add: replace_tags.simps)
  next
    case False
    let ?run = "x # takeWhile (\<lambda>c. \<not> is_ver_char c) xs"
    have "list_all (\<lambda>c. \<not> is_alnum c) ?run"
      using "2.prems" by (auto simp: list_all_iff dest: set_takeWhileD)
    then have "strip_first_nonword ?run = []"
      by (rule strip_no_alnum)
    then have "tag_segment ?run = ''..''"
      by (simp add: tag_segment_def)
    moreover have "list_all (\<lambda>c. \<not> is_alnum c) (dropWhile (\<lambda>c. \<not> is_ver_char c) xs)"
      using "2.prems" by (auto simp: list_all_iff dest: set_dropWhileD)
    ultimately show ?thesis
      using False "2.IH"(2) by (simp add: replace_tags.simps)
  qed
qed

lemma no_alnum_prep:
  assumes "list_all (\<lambda>c. \<not> is_alnum c) t"
  shows "list_all (\<lambda>p. p = []) (prep t)"
proof -
  have "p = []" if "p \<in> set (prep t)" for p
  proof -
    from that have "set p \<subseteq> set (trim_zero_tail (replace_tags t)) - {CHR ''.''}"
      by (simp add: prep_def split_dots_chars)
    also have "\<dots> \<subseteq> set (replace_tags t) - {CHR ''.''}"
      using trim_zero_tail_subset by blast
    also have "\<dots> \<subseteq> {}"
      using no_alnum_replace_tags [OF assms] by blast
    finally show ?thesis by simp
  qed
  then show ?thesis
    by (simp add: list_all_iff)
qed


lemma no_alnum_reads_zero:
  assumes "list_all (\<lambda>c. \<not> is_alnum c) u"
  shows "double_tilde (array_get (prep_array u) i) = 0"
proof (cases "i < length (prep u)")
  case True
  then have "prep u ! i \<in> set (prep u)"
    by simp
  with no_alnum_prep [OF assms] have "prep u ! i = []"
    by (simp add: list_all_iff)
  with True show ?thesis
    by (simp add: array_get_def prep_array_def double_tilde_def string_to_number_def to_int32_def)
next
  case False
  then show ?thesis
    by (simp add: array_get_def prep_array_def double_tilde_def to_int32_def)
qed

text \<open>
  Claim C8 says that \<open>compareVer\<close> never raises and that malformed or empty tokens
  normalize to segments of value 0. The first part holds. The second does not hold of every
  malformed token: a run that holds a letter becomes a negative tag segment, by the
  design of \<open>prep\<close>. Claim C8 as amended: \<open>compareVer\<close> is total on strings and never
  raises, with a result among \<open>-1\<close>, \<open>0\<close>, \<open>1\<close>; every token normalizes to at least
  one segment, each segment empty, a run of digits, or a minus sign and a run of digits,
  so that no segment converts to NaN; an empty segment and an absent one (a read past the
  end of the shorter array) coerce to \<open>0\<close>; and a token without letters and digits, the
  empty token among them, normalizes to empty segments only, so that every position of
  it reads \<open>0\<close>.
\<close>

theorem compareVer_never_raises:
  "compareVer a b \<in> {- 1, 0, 1}
   \<and> prep t \<noteq> []
   \<and> list_all numeric_segment (prep t)
   \<and> list_all (\<lambda>p. string_to_number p \<noteq> NaN) (prep t)
   \<and> double_tilde None = 0
   \<and> double_tilde (Some (Str [])) = 0
   \<and> (list_all (\<lambda>c. \<not> is_alnum c) u \<longrightarrow>
        list_all (\<lambda>p. p = []) (prep u)
        \<and> (\<forall>i. double_tilde (array_get (prep_array u) i) = 0))"
  using compareVer_values [of a b] prep_nonempty [of t] prep_numeric [of t] prep_never_NaN [of t]
    no_alnum_prep [of u] no_alnum_reads_zero [of u]
  by (simp add: double_tilde_def to_int32_def string_to_number_def)

theorem compareVer_never_raises_witness:
  "compareVer ''-..'' ''91.0a1'' \<in> {- 1, 0, 1}
   \<and> prep ''91.0a1'' = [''91'', ''-65439'', ''1'']
   \<and> list_all numeric_segment (prep ''91.0a1'')
   \<and> list_all (\<lambda>p. string_to_number p \<noteq> NaN) (prep ''91.0a1'')
   \<and> list_all (\<lambda>c. \<not> is_alnum c) ''-..''
   \<and> prep ''-..'' = [[], [], [], [], []]
   \<and> list_all (\<lambda>p. p = []) (prep ''-..'')
   \<and> double_tilde (array_get (prep_array ''-..'') 7) = 0"
proof -
  have h: "list_all (\<lambda>c. \<not> is_alnum c) ''-..''"
    by (simp add: char_eval)
  have p: "prep ''91.0a1'' = [''91'', ''-65439'', ''1'']" "prep ''-..'' = [[], [], [], [], []]"
    by (simp_all add: prep_eval char_eval)
  from compareVer_never_raises [of "''-..''" "''91.0a1''" "''91.0a1''" "''-..''"] h p
  show ?thesis
    by simp
qed

text \<open>
  Claim C8 as stated fails at the malformed token \<open>abc\<close>: its second segment is not
  \<open>0\<close>, and the token compares below \<open>0\<close>.
\<close>

theorem malformed_token_counterexample:
  "prep ''abc'' = [[], ''-65439'']
   \<and> double_tilde (array_get (prep_array ''abc'') 1) = - 65439
   \<and> compareVer ''abc'' ''0'' = - 1"
  by (simp add: compareVer_def prep_eval char_eval number_eval loop_eval)

section \<open>Properties of the schema functions\<close>

lemmas schema_eval = extractFlatPolicyNamesFromPolicySchema.simps get_prop_def opt_prop_def
  checkPolicySchemaChanges_def list_includes_def property_json_def member_json_def has_key_def
  json_quote_def json_escape_def own_order_def is_index_name_def index_value_def
  index_of_key_def all_digits_def digits_value_def show_nat.simps is_digit_def char_code_def

lemma schema_children_iff: "schema_children es = list_all (\<lambda>p. schema_node (snd p)) es"
  by (induction es) auto

lemma schema_children_own_order: "schema_children (own_order es) = schema_children es"
  by (simp add: schema_children_iff list_all_iff set_own_order)

lemma schema_members_lookup:
  "schema_members kvs \<Longrightarrow> map_of kvs k = Some v
     \<Longrightarrow> k = ''properties'' \<or> k = ''patternProperties''
     \<Longrightarrow> \<exists>cs. v = JObj cs \<and> schema_children cs"
  by (induction kvs) (auto split: if_splits jsval.splits)

lemma schema_node_group:
  assumes "schema_node data" "k = ''properties'' \<or> k = ''patternProperties''"
  shows "get_prop data k = Inr (prop_value data k)
         \<and> (if truthy (prop_value data k)
              then object_entries (prop_value data k) = spec_children data k
                   \<and> schema_children (spec_children data k)
              else spec_children data k = [])"
proof -
  from assms(1) obtain kvs where d: "data = JObj kvs" and m: "schema_members kvs"
    by (cases data) simp_all
  show ?thesis
  proof (cases "map_of kvs k")
    case None
    with d show ?thesis
      by (simp add: get_prop_def spec_children_def insertion_children_def own_order_def)
  next
    case (Some v)
    from schema_members_lookup [OF m Some assms(2)] obtain cs where "v = JObj cs" "schema_children cs"
      by blast
    with d Some show ?thesis
      by (simp add: get_prop_def spec_children_def insertion_children_def
          schema_children_own_order)
  qed
qed

lemma extract_refines_spec:
  "(schema_node data \<longrightarrow>
      extractFlatPolicyNamesFromPolicySchema data = Inr (map fst (spec_flatten data)))"
  "(schema_children es \<longrightarrow>
      extract_entries es props = Inr (props @ map fst (spec_flatten_children es)))"
proof (induction data and es props rule: extractFlatPolicyNamesFromPolicySchema_extract_entries.induct)
  case (1 data)
  show ?case
  proof
    assume sn: "schema_node data"
    let ?v1 = "prop_value data ''properties''"
    let ?v2 = "prop_value data ''patternProperties''"
    from schema_node_group [OF sn, of "''properties''"]
    have g1: "get_prop data ''properties'' = Inr ?v1"
      and t1: "truthy ?v1 \<Longrightarrow> object_entries ?v1 = spec_children data ''properties''
                 \<and> schema_children (spec_children data ''properties'')"
      and f1: "\<not> truthy ?v1 \<Longrightarrow> spec_children data ''properties'' = []"
      by (simp_all split: if_splits)
    from schema_node_group [OF sn, of "''patternProperties''"]
    have g2: "get_prop data ''patternProperties'' = Inr ?v2"
      and t2: "truthy ?v2 \<Longrightarrow> object_entries ?v2 = spec_children data ''patternProperties''
                 \<and> schema_children (spec_children data ''patternProperties'')"
      and f2: "\<not> truthy ?v2 \<Longrightarrow> spec_children data ''patternProperties'' = []"
      by (simp_all split: if_splits)
    have first: "(if truthy ?v1 then extract_entries (object_entries ?v1) [] else Inr [])
                 = Inr (map fst (spec_flatten_children (spec_children data ''properties'')))"
    proof (cases "truthy ?v1")
      case True
      from "1.IH"(1) [OF g1 True] t1 [OF True] True show ?thesis by simp
    next
      case False
      with f1 show ?thesis by simp
    qed
    let ?p1 = "map fst (spec_flatten_children (spec_children data ''properties''))"
    have second: "(if truthy ?v2 then extract_entries (object_entries ?v2) ?p1 else Inr ?p1)
                 = Inr (?p1 @ map fst (spec_flatten_children (spec_children data ''patternProperties'')))"
    proof (cases "truthy ?v2")
      case True
      from "1.IH"(2) [OF g1 first g2 True] t2 [OF True] True show ?thesis by simp
    next
      case False
      with f2 show ?thesis by simp
    qed
    show "extractFlatPolicyNamesFromPolicySchema data = Inr (map fst (spec_flatten data))"
      by (simp add: extractFlatPolicyNamesFromPolicySchema.simps [of data] g1 g2 first second
          spec_flatten.simps [of data] del: if_split)
  qed
next
  case (2 properties)
  show ?case by simp
next
  case (3 name entry rest properties)
  show ?case
  proof
    assume sc: "schema_children ((name, entry) # rest)"
    then have e: "schema_node entry" and r: "schema_children rest"
      by simp_all
    from "3.IH"(1) e
    have sub: "extractFlatPolicyNamesFromPolicySchema entry = Inr (map fst (spec_flatten entry))"
      by simp
    from "3.IH"(2) [OF sub] r
    show "extract_entries ((name, entry) # rest) properties
          = Inr (properties @ map fst (spec_flatten_children ((name, entry) # rest)))"
      by (auto simp: sub case_prod_unfold)
  qed
qed

lemma schema_node_properties:
  assumes "schema_node data" "has_key data ''properties''"
  shows "prop_value data ''properties'' = JObj (insertion_children data ''properties'')"
proof -
  from assms(1) obtain kvs where d: "data = JObj kvs" and m: "schema_members kvs"
    by (cases data) simp_all
  from assms(2) d obtain v where v: "map_of kvs ''properties'' = Some v"
    by (auto simp: has_key_def)
  from schema_members_lookup [OF m v] obtain cs where "v = JObj cs"
    by blast
  with d v show ?thesis
    by (simp add: insertion_children_def)
qed

lemma check_on_schema_nodes:
  assumes "schema_node old" "schema_node new"
    and "has_key old ''properties''" "has_key new ''properties''"
  shows "checkPolicySchemaChanges old new =
           Inr (Some
             \<lparr> added = filter (\<lambda>e. e \<notin> set (map fst (spec_flatten old))) (map fst (spec_flatten new)),
               removed = filter (\<lambda>e. e \<notin> set (map fst (spec_flatten new))) (map fst (spec_flatten old)),
               changed = filter
                 (\<lambda>e. e \<in> set (map fst (spec_flatten old))
                      \<and> property_json new e \<noteq> property_json old e)
                 (map fst (spec_flatten new)) \<rparr>)"
proof -
  have k1: "extractFlatPolicyNamesFromPolicySchema old = Inr (map fst (spec_flatten old))"
    using extract_refines_spec(1) [of old] assms(1) by blast
  have k2: "extractFlatPolicyNamesFromPolicySchema new = Inr (map fst (spec_flatten new))"
    using extract_refines_spec(1) [of new] assms(2) by blast
  have "\<not> nullish d" if "schema_node d" for d
    using that by (cases d) simp_all
  with assms(1,2) have n: "\<not> nullish old" "\<not> nullish new"
    by blast+
  have t1: "truthy (opt_prop old ''properties'')"
    using n(1) schema_node_properties [OF assms(1,3)] by (simp add: opt_prop_def)
  have t2: "truthy (opt_prop new ''properties'')"
    using n(2) schema_node_properties [OF assms(2,4)] by (simp add: opt_prop_def)
  show ?thesis
    unfolding checkPolicySchemaChanges_def list_includes_def
    by (simp add: t1 t2 k1 k2)
qed

lemma no_index_own_order: "no_index_children cs \<Longrightarrow> own_order cs = cs"
proof -
  assume "no_index_children cs"
  then have "list_all (\<lambda>p. \<not> is_index_name (fst p)) cs"
    by (induction cs) auto
  then have "filter (\<lambda>p. is_index_name (fst p)) cs = []"
    and "filter (\<lambda>p. \<not> is_index_name (fst p)) cs = cs"
    by (simp_all add: list_all_iff filter_empty_conv filter_id_conv)
  then show ?thesis
    by (simp add: own_order_def)
qed

lemma no_index_members_lookup:
  "no_index_members kvs \<Longrightarrow> map_of kvs k = Some (JObj cs)
     \<Longrightarrow> k = ''properties'' \<or> k = ''patternProperties''
     \<Longrightarrow> no_index_children cs"
  by (induction kvs) (auto split: if_splits)

lemma no_index_spec_children:
  assumes "no_index_names node" "k = ''properties'' \<or> k = ''patternProperties''"
  shows "spec_children node k = insertion_children node k
         \<and> no_index_children (insertion_children node k)"
proof -
  have n: "no_index_children (insertion_children node k)"
  proof (cases node)
    case (JObj kvs)
    with assms(1) have m: "no_index_members kvs" by simp
    show ?thesis
    proof (cases "map_of kvs k")
      case None
      with JObj show ?thesis by (simp add: insertion_children_def)
    next
      case (Some v)
      note nk = \<open>node = JObj kvs\<close>
      show ?thesis
      proof (cases "\<exists>cs. v = JObj cs")
        case True
        then obtain cs where v: "v = JObj cs"
          by blast
        with no_index_members_lookup [OF m _ assms(2), of cs] Some nk
        show ?thesis by (simp add: insertion_children_def)
      next
        case False
        then have "insertion_children node k = []"
          using nk Some by (cases v) (simp_all add: insertion_children_def)
        then show ?thesis
          by simp
      qed
    qed
  qed (simp_all add: insertion_children_def)
  with no_index_own_order [OF n] show ?thesis
    by (simp add: spec_children_def)
qed

lemma spec_flatten_insertion:
  "no_index_names node \<longrightarrow> spec_flatten node = insertion_flatten node"
  "no_index_children es \<longrightarrow> spec_flatten_children es = insertion_flatten_children es"
proof (induction node and es rule: insertion_flatten_insertion_flatten_children.induct)
  case (1 node)
  show ?case
  proof
    assume n: "no_index_names node"
    from no_index_spec_children [OF n, of "''properties''"]
      no_index_spec_children [OF n, of "''patternProperties''"] "1.IH"
    show "spec_flatten node = insertion_flatten node"
      by (simp add: spec_flatten.simps [of node] insertion_flatten.simps [of node])
  qed
next
  case 2
  show ?case by (simp add: spec_flatten.simps insertion_flatten.simps)
next
  case (3 name child rest)
  then show ?case
    by (simp add: spec_flatten.simps insertion_flatten.simps)
qed

text \<open>
  Claim C7 says that the children of a grouping key are taken in their given (insertion)
  order. The source takes them from \<open>Object.entries\<close>, which lists the names that are
  array indices first, in ascending numeric order, and only then the other names in
  insertion order. Claim C7 as amended: on a schema node the source function returns
  exactly the names of the flattening that takes the grouping key \<open>properties\<close> before
  \<open>patternProperties\<close>, the children of each in the order the object enumerates them,
  and for each child its own name followed by the child's flattened names, each prefixed
  with the child's name and an underscore, in their order; where no child name is an
  array index, that is the insertion order. In particular
  \<open>{properties: {a: {properties: {b: {}}}}}\<close> gives the names \<open>a\<close>, \<open>a_b\<close>.
\<close>

theorem extract_follows_enumeration_order:
  "(schema_node data \<longrightarrow>
      extractFlatPolicyNamesFromPolicySchema data = Inr (map fst (spec_flatten data)))
   \<and> (schema_node data \<and> no_index_names data \<longrightarrow>
      extractFlatPolicyNamesFromPolicySchema data = Inr (map fst (insertion_flatten data)))
   \<and> extractFlatPolicyNamesFromPolicySchema
        (JObj [(''properties'', JObj [(''a'', JObj [(''properties'', JObj [(''b'', JObj [])])])])])
      = Inr [''a'', ''a_b'']"
proof (intro conjI)
  show "schema_node data \<longrightarrow>
      extractFlatPolicyNamesFromPolicySchema data = Inr (map fst (spec_flatten data))"
    by (rule extract_refines_spec(1))
  show "schema_node data \<and> no_index_names data \<longrightarrow>
      extractFlatPolicyNamesFromPolicySchema data = Inr (map fst (insertion_flatten data))"
    using extract_refines_spec(1) [of data] spec_flatten_insertion(1) [of data] by simp
  show "extractFlatPolicyNamesFromPolicySchema
        (JObj [(''properties'', JObj [(''a'', JObj [(''properties'', JObj [(''b'', JObj [])])])])])
      = Inr [''a'', ''a_b'']"
    by (simp add: schema_eval)
qed

theorem extract_follows_enumeration_order_witness:
  "schema_node (JObj [(''properties'', JObj [(''b'', JObj []), (''10'', JObj []), (''9'', JObj [])])])
   \<and> map fst (spec_flatten
        (JObj [(''properties'', JObj [(''b'', JObj []), (''10'', JObj []), (''9'', JObj [])])]))
      = [''9'', ''10'', ''b'']
   \<and> extractFlatPolicyNamesFromPolicySchema
        (JObj [(''properties'', JObj [(''b'', JObj []), (''10'', JObj []), (''9'', JObj [])])])
      = Inr [''9'', ''10'', ''b'']
   \<and> schema_node (JObj [(''properties'', JObj [(''a'', JObj [(''properties'', JObj [(''b'', JObj [])])])])])
   \<and> no_index_names (JObj [(''properties'', JObj [(''a'', JObj [(''properties'', JObj [(''b'', JObj [])])])])])
   \<and> map fst (insertion_flatten
        (JObj [(''properties'', JObj [(''a'', JObj [(''properties'', JObj [(''b'', JObj [])])])])]))
      = [''a'', ''a_b'']
   \<and> extractFlatPolicyNamesFromPolicySchema
        (JObj [(''properties'', JObj [(''a'', JObj [(''properties'', JObj [(''b'', JObj [])])])])])
      = Inr [''a'', ''a_b'']"
proof -
  let ?x = "JObj [(''properties'', JObj [(''b'', JObj []), (''10'', JObj []), (''9'', JObj [])])]"
  let ?d = "JObj [(''properties'', JObj [(''a'', JObj [(''properties'', JObj [(''b'', JObj [])])])])]"
  have sx: "schema_node ?x" and sd: "schema_node ?d"
    by simp_all
  have nd: "no_index_names ?d"
    by (simp add: is_index_name_def index_of_key_def all_digits_def is_digit_def char_code_def)
  have fx: "map fst (spec_flatten ?x) = [''9'', ''10'', ''b'']"
    by (simp add: spec_flatten.simps spec_children_def insertion_children_def schema_eval)
  have fd: "map fst (insertion_flatten ?d) = [''a'', ''a_b'']"
    by (simp add: insertion_flatten.simps insertion_children_def)
  from extract_follows_enumeration_order [of ?x] sx
  have ex: "extractFlatPolicyNamesFromPolicySchema ?x = Inr (map fst (spec_flatten ?x))"
    by blast
  from extract_follows_enumeration_order [of ?d] sd nd
  have ed: "extractFlatPolicyNamesFromPolicySchema ?d = Inr (map fst (insertion_flatten ?d))"
    by blast
  from ex ed show ?thesis
    unfolding fx fd using sx sd nd by blast
qed

text \<open>
  Claim C7 as stated fails where a child name is an array index: \<open>1\<close> was inserted after
  \<open>b\<close> and is emitted before it.
\<close>

theorem insertion_order_counterexample:
  "schema_node (JObj [(''properties'', JObj [(''b'', JObj []), (''1'', JObj [])])])
   \<and> map fst (insertion_flatten (JObj [(''properties'', JObj [(''b'', JObj []), (''1'', JObj [])])]))
      = [''b'', ''1'']
   \<and> extractFlatPolicyNamesFromPolicySchema
        (JObj [(''properties'', JObj [(''b'', JObj []), (''1'', JObj [])])])
      = Inr [''1'', ''b'']"
  by (simp add: schema_eval insertion_flatten.simps insertion_children_def)

text \<open>
  Claim C5. For two schema nodes that both have a \<open>properties\<close> key,
  \<open>checkPolicySchemaChanges\<close> returns a diff whose \<open>added\<close> is the flat names of the new
  node that are not flat names of the old one, and whose \<open>removed\<close> is the flat names of
  the old node that are not flat names of the new one, each in the order of the
  flattening. For \<open>{properties: {x: {type: "string"}}}\<close> and
  \<open>{properties: {x: {type: "string"}, y: {type: "boolean"}}}\<close> the result is
  \<open>added = ["y"]\<close>, \<open>removed = []\<close>, \<open>changed = []\<close>.
\<close>

theorem added_removed_set_difference:
  "(schema_node old \<and> schema_node new \<and> has_key old ''properties'' \<and> has_key new ''properties''
     \<longrightarrow> (\<exists>keys1 keys2 r.
            extractFlatPolicyNamesFromPolicySchema old = Inr keys1
            \<and> extractFlatPolicyNamesFromPolicySchema new = Inr keys2
            \<and> checkPolicySchemaChanges old new = Inr (Some r)
            \<and> added r = filter (\<lambda>e. e \<notin> set keys1) keys2
            \<and> removed r = filter (\<lambda>e. e \<notin> set keys2) keys1))
   \<and> checkPolicySchemaChanges
        (JObj [(''properties'', JObj [(''x'', JObj [(''type'', JStr ''string'')])])])
        (JObj [(''properties'', JObj [(''x'', JObj [(''type'', JStr ''string'')]),
                                        (''y'', JObj [(''type'', JStr ''boolean'')])])])
      = Inr (Some \<lparr> added = [''y''], removed = [], changed = [] \<rparr>)"
proof
  show "schema_node old \<and> schema_node new \<and> has_key old ''properties'' \<and> has_key new ''properties''
     \<longrightarrow> (\<exists>keys1 keys2 r.
            extractFlatPolicyNamesFromPolicySchema old = Inr keys1
            \<and> extractFlatPolicyNamesFromPolicySchema new = Inr keys2
            \<and> checkPolicySchemaChanges old new = Inr (Some r)
            \<and> added r = filter (\<lambda>e. e \<notin> set keys1) keys2
            \<and> removed r = filter (\<lambda>e. e \<notin> set keys2) keys1)"
    using extract_refines_spec(1) [of old] extract_refines_spec(1) [of new]
    by (auto simp: check_on_schema_nodes)
  show "checkPolicySchemaChanges
        (JObj [(''properties'', JObj [(''x'', JObj [(''type'', JStr ''string'')])])])
        (JObj [(''properties'', JObj [(''x'', JObj [(''type'', JStr ''string'')]),
                                        (''y'', JObj [(''type'', JStr ''boolean'')])])])
      = Inr (Some \<lparr> added = [''y''], removed = [], changed = [] \<rparr>)"
    by (simp add: schema_eval)
qed

theorem added_removed_set_difference_witness:
  "schema_node (JObj [(''properties'', JObj [(''x'', JObj [(''type'', JStr ''string'')])])])
   \<and> schema_node (JObj [(''properties'', JObj [(''x'', JObj [(''type'', JStr ''string'')]),
                                        (''y'', JObj [(''type'', JStr ''boolean'')])])])
   \<and> has_key (JObj [(''properties'', JObj [(''x'', JObj [(''type'', JStr ''string'')])])]) ''properties''
   \<and> has_key (JObj [(''properties'', JObj [(''x'', JObj [(''type'', JStr ''string'')]),
                                        (''y'', JObj [(''type'', JStr ''boolean'')])])]) ''properties''
   \<and> (\<exists>keys1 keys2 r.
            extractFlatPolicyNamesFromPolicySchema
              (JObj [(''properties'', JObj [(''x'', JObj [(''type'', JStr ''string'')])])]) = Inr keys1
            \<and> extractFlatPolicyNamesFromPolicySchema
              (JObj [(''properties'', JObj [(''x'', JObj [(''type'', JStr ''string'')]),
                                        (''y'', JObj [(''type'', JStr ''boolean'')])])]) = Inr keys2
            \<and> checkPolicySchemaChanges
                 (JObj [(''properties'', JObj [(''x'', JObj [(''type'', JStr ''string'')])])])
                 (JObj [(''properties'', JObj [(''x'', JObj [(''type'', JStr ''string'')]),
                                        (''y'', JObj [(''type'', JStr ''boolean'')])])])
               = Inr (Some r)
            \<and> added r = filter (\<lambda>e. e \<notin> set keys1) keys2
            \<and> removed r = filter (\<lambda>e. e \<notin> set keys2) keys1)"
proof -
  let ?old = "JObj [(''properties'', JObj [(''x'', JObj [(''type'', JStr ''string'')])])]"
  let ?new = "JObj [(''properties'', JObj [(''x'', JObj [(''type'', JStr ''string'')]),
                                        (''y'', JObj [(''type'', JStr ''boolean'')])])]"
  have h: "schema_node ?old" "schema_node ?new" "has_key ?old ''properties''" "has_key ?new ''properties''"
    by (simp_all add: has_key_def)
  from added_removed_set_difference [of ?old ?new] h show ?thesis
    by blast
qed

text \<open>
  Claim C6. If either argument has no \<open>properties\<close> key, whichever of the two it is,
  and also when it is \<open>null\<close> or \<open>undefined\<close>, the function returns \<open>undefined\<close>:
  no diff object and no error.
\<close>

theorem no_properties_key_gives_undefined:
  "\<not> has_key file1 ''properties'' \<or> \<not> has_key file2 ''properties''
   \<Longrightarrow> checkPolicySchemaChanges file1 file2 = Inr None"
proof -
  have u: "opt_prop f ''properties'' = JUndefined" if "\<not> has_key f ''properties''" for f
    using that by (cases f) (auto simp: opt_prop_def has_key_def schema_keys_not_index)
  assume "\<not> has_key file1 ''properties'' \<or> \<not> has_key file2 ''properties''"
  then show ?thesis
    by (auto simp: checkPolicySchemaChanges_def u)
qed

theorem no_properties_key_gives_undefined_witness:
  "\<not> has_key JNull ''properties''
   \<and> checkPolicySchemaChanges JNull (JObj [(''properties'', JObj [])]) = Inr None
   \<and> \<not> has_key (JObj [(''type'', JStr ''string'')]) ''properties''
   \<and> checkPolicySchemaChanges (JObj [(''properties'', JObj [])]) (JObj [(''type'', JStr ''string'')])
       = Inr None
   \<and> checkPolicySchemaChanges JUndefined JUndefined = Inr None"
proof -
  have h: "\<not> has_key JNull ''properties''" "\<not> has_key (JObj [(''type'', JStr ''string'')]) ''properties''"
    "\<not> has_key JUndefined ''properties''"
    by (simp_all add: has_key_def)
  from no_properties_key_gives_undefined [of JNull "JObj [(''properties'', JObj [])]"]
    no_properties_key_gives_undefined [of "JObj [(''properties'', JObj [])]" "JObj [(''type'', JStr ''string'')]"]
    no_properties_key_gives_undefined [of JUndefined JUndefined] h
  show ?thesis by blast
qed

text \<open>
  Claim C10. The lists are not deduplicated. A child name under both \<open>properties\<close> and
  \<open>patternProperties\<close> of one node is emitted twice by the flattening, and then occurs
  twice in \<open>added\<close>, or in \<open>removed\<close> when the arguments are exchanged.
\<close>

theorem duplicate_names_not_removed:
  "schema_node (JObj [(''properties'', JObj [(''a'', JObj [])]),
                      (''patternProperties'', JObj [(''a'', JObj [])])])
   \<and> extractFlatPolicyNamesFromPolicySchema
        (JObj [(''properties'', JObj [(''a'', JObj [])]),
               (''patternProperties'', JObj [(''a'', JObj [])])])
      = Inr [''a'', ''a'']
   \<and> checkPolicySchemaChanges
        (JObj [(''properties'', JObj [])])
        (JObj [(''properties'', JObj [(''a'', JObj [])]),
               (''patternProperties'', JObj [(''a'', JObj [])])])
      = Inr (Some \<lparr> added = [''a'', ''a''], removed = [], changed = [] \<rparr>)
   \<and> checkPolicySchemaChanges
        (JObj [(''properties'', JObj [(''a'', JObj [])]),
               (''patternProperties'', JObj [(''a'', JObj [])])])
        (JObj [(''properties'', JObj [])])
      = Inr (Some \<lparr> added = [], removed = [''a'', ''a''], changed = [] \<rparr>)"
  by (simp add: schema_eval)

lemma flatten_children_names:
  "(e, n) \<in> set es \<Longrightarrow> e \<in> fst ` set (spec_flatten_children es)"
  by (induction es) (auto simp: spec_flatten.simps)

lemma top_level_names_flatten:
  assumes "map_of (insertion_children node ''properties'') e = Some n"
  shows "e \<in> set (map fst (spec_flatten node))"
proof -
  from assms have "(e, n) \<in> set (insertion_children node ''properties'')"
    by (rule map_of_SomeD)
  then have "(e, n) \<in> set (spec_children node ''properties'')"
    by (simp add: spec_children_def set_own_order)
  from flatten_children_names [OF this] show ?thesis
    by (auto simp: spec_flatten.simps [of node])
qed

lemma property_json_schema_node:
  assumes "schema_node data" "has_key data ''properties''"
  shows "property_json data e =
           (case map_of (insertion_children data ''properties'') e of
              None \<Rightarrow> if e = ''__proto__'' then Some ''{}'' else None
            | Some n \<Rightarrow> stringify n)"
  by (simp add: property_json_def member_json_def has_key_def schema_node_properties [OF assms]
      split: option.splits)

text \<open>
  Claim C4 says that \<open>changed\<close> holds the flat names of both flattenings whose bound
  sub-node, nested names such as \<open>a_b\<close> included, serialises differently in the two
  inputs. The source keeps no binding of names to nodes: it reads \<open>file.properties[e]\<close>,
  the member of the top-level \<open>properties\<close> object under the flat name.
  Claim C4 as amended: for two schema nodes that both have a \<open>properties\<close> key,
  \<open>changed\<close> contains exactly the flat names of both flattenings for which
  \<open>JSON.stringify(file.properties[e])\<close> differs between the two inputs, where
  \<open>file.properties[e]\<close> is the top-level property of that name and, when there is none,
  the inherited member (serialised \<open>{}\<close> for the name \<open>__proto__\<close> and \<open>undefined\<close> for
  every other name). So a name that is a top-level property of both inputs is reported
  exactly when its sub-node serialises differently, and a name that is a top-level
  property of neither input is never reported.
\<close>

theorem changed_by_top_level_lookup:
  assumes "schema_node old" "schema_node new"
    and "has_key old ''properties''" "has_key new ''properties''"
  shows "\<exists>r. checkPolicySchemaChanges old new = Inr (Some r)
           \<and> (\<forall>e. e \<in> set (changed r) \<longleftrightarrow>
                  e \<in> set (map fst (spec_flatten old)) \<and> e \<in> set (map fst (spec_flatten new))
                  \<and> property_json new e \<noteq> property_json old e)
           \<and> (\<forall>e. property_json old e =
                  (case map_of (insertion_children old ''properties'') e of
                     None \<Rightarrow> if e = ''__proto__'' then Some ''{}'' else None
                   | Some n \<Rightarrow> stringify n))
           \<and> (\<forall>e. property_json new e =
                  (case map_of (insertion_children new ''properties'') e of
                     None \<Rightarrow> if e = ''__proto__'' then Some ''{}'' else None
                   | Some n \<Rightarrow> stringify n))
           \<and> (\<forall>e n1 n2. map_of (insertion_children old ''properties'') e = Some n1
                  \<and> map_of (insertion_children new ''properties'') e = Some n2
                  \<longrightarrow> (e \<in> set (changed r) \<longleftrightarrow> stringify n2 \<noteq> stringify n1))
           \<and> (\<forall>e. map_of (insertion_children old ''properties'') e = None
                  \<and> map_of (insertion_children new ''properties'') e = None
                  \<longrightarrow> e \<notin> set (changed r))"
proof -
  let ?r = "\<lparr> added = filter (\<lambda>e. e \<notin> set (map fst (spec_flatten old))) (map fst (spec_flatten new)),
               removed = filter (\<lambda>e. e \<notin> set (map fst (spec_flatten new))) (map fst (spec_flatten old)),
               changed = filter
                 (\<lambda>e. e \<in> set (map fst (spec_flatten old))
                      \<and> property_json new e \<noteq> property_json old e)
                 (map fst (spec_flatten new)) \<rparr>"
  note po = property_json_schema_node [OF assms(1,3)]
  note pn = property_json_schema_node [OF assms(2,4)]
  have r: "checkPolicySchemaChanges old new = Inr (Some ?r)"
    by (rule check_on_schema_nodes [OF assms])
  have c: "e \<in> set (changed ?r) \<longleftrightarrow>
             e \<in> set (map fst (spec_flatten old)) \<and> e \<in> set (map fst (spec_flatten new))
             \<and> property_json new e \<noteq> property_json old e" for e
    by auto
  have top: "e \<in> set (changed ?r) \<longleftrightarrow> stringify n2 \<noteq> stringify n1"
    if "map_of (insertion_children old ''properties'') e = Some n1"
      and "map_of (insertion_children new ''properties'') e = Some n2" for e n1 n2
    using that top_level_names_flatten [OF that(1)] top_level_names_flatten [OF that(2)]
    by (simp only: c po pn) simp
  have none: "e \<notin> set (changed ?r)"
    if "map_of (insertion_children old ''properties'') e = None"
      and "map_of (insertion_children new ''properties'') e = None" for e
    using that by (simp only: c po pn) simp
  from r c top none po pn show ?thesis
    by blast
qed

theorem changed_by_top_level_lookup_witness:
  "schema_node (JObj [(''properties'', JObj [(''a'', JObj [(''properties'',
       JObj [(''b'', JObj [(''type'', JStr ''string'')])])])])])
   \<and> schema_node (JObj [(''properties'', JObj [(''a'', JObj [(''properties'',
       JObj [(''b'', JObj [(''type'', JStr ''boolean'')])])])])])
   \<and> has_key (JObj [(''properties'', JObj [(''a'', JObj [(''properties'',
       JObj [(''b'', JObj [(''type'', JStr ''string'')])])])])]) ''properties''
   \<and> has_key (JObj [(''properties'', JObj [(''a'', JObj [(''properties'',
       JObj [(''b'', JObj [(''type'', JStr ''boolean'')])])])])]) ''properties''
   \<and> (\<exists>r. checkPolicySchemaChanges
              (JObj [(''properties'', JObj [(''a'', JObj [(''properties'',
                 JObj [(''b'', JObj [(''type'', JStr ''string'')])])])])])
              (JObj [(''properties'', JObj [(''a'', JObj [(''properties'',
                 JObj [(''b'', JObj [(''type'', JStr ''boolean'')])])])])])
            = Inr (Some r)
          \<and> ''a'' \<in> set (changed r) \<and> ''a_b'' \<notin> set (changed r))"
proof -
  let ?old = "JObj [(''properties'', JObj [(''a'', JObj [(''properties'',
       JObj [(''b'', JObj [(''type'', JStr ''string'')])])])])]"
  let ?new = "JObj [(''properties'', JObj [(''a'', JObj [(''properties'',
       JObj [(''b'', JObj [(''type'', JStr ''boolean'')])])])])]"
  let ?n1 = "JObj [(''properties'', JObj [(''b'', JObj [(''type'', JStr ''string'')])])]"
  let ?n2 = "JObj [(''properties'', JObj [(''b'', JObj [(''type'', JStr ''boolean'')])])]"
  have h: "schema_node ?old" "schema_node ?new" "has_key ?old ''properties''"
    "has_key ?new ''properties''"
    by (simp_all add: has_key_def)
  have a: "map_of (insertion_children ?old ''properties'') ''a'' = Some ?n1"
    "map_of (insertion_children ?new ''properties'') ''a'' = Some ?n2"
    by (simp_all add: insertion_children_def)
  have ab: "map_of (insertion_children ?old ''properties'') ''a_b'' = None"
    "map_of (insertion_children ?new ''properties'') ''a_b'' = None"
    by (simp_all add: insertion_children_def)
  have ne: "stringify ?n2 \<noteq> stringify ?n1"
    by (simp add: schema_eval)
  from changed_by_top_level_lookup [OF h] obtain r where
    r: "checkPolicySchemaChanges ?old ?new = Inr (Some r)"
    and top: "\<And>e n1 n2. map_of (insertion_children ?old ''properties'') e = Some n1
                  \<and> map_of (insertion_children ?new ''properties'') e = Some n2
                  \<Longrightarrow> (e \<in> set (changed r) \<longleftrightarrow> stringify n2 \<noteq> stringify n1)"
    and none: "\<And>e. map_of (insertion_children ?old ''properties'') e = None
                  \<and> map_of (insertion_children ?new ''properties'') e = None
                  \<Longrightarrow> e \<notin> set (changed r)"
    by blast
  from top [of "''a''" ?n1 ?n2] a ne have "''a'' \<in> set (changed r)"
    by blast
  moreover from none [of "''a_b''"] ab have "''a_b'' \<notin> set (changed r)"
    by blast
  ultimately show ?thesis
    using h r by blast
qed

text \<open>
  Claim C4 as stated fails where only a nested node changes: \<open>a_b\<close> is in both
  flattenings, the nodes bound to it serialise differently, and \<open>changed\<close> is
  \<open>["a"]\<close> alone.
\<close>

theorem nested_change_counterexample:
  "checkPolicySchemaChanges
     (JObj [(''properties'', JObj [(''a'', JObj [(''properties'',
        JObj [(''b'', JObj [(''type'', JStr ''string'')])])])])])
     (JObj [(''properties'', JObj [(''a'', JObj [(''properties'',
        JObj [(''b'', JObj [(''type'', JStr ''boolean'')])])])])])
   = Inr (Some \<lparr> added = [], removed = [], changed = [''a''] \<rparr>)
   \<and> map_of (spec_flatten
        (JObj [(''properties'', JObj [(''a'', JObj [(''properties'',
           JObj [(''b'', JObj [(''type'', JStr ''string'')])])])])])) ''a_b''
      = Some (JObj [(''type'', JStr ''string'')])
   \<and> map_of (spec_flatten
        (JObj [(''properties'', JObj [(''a'', JObj [(''properties'',
           JObj [(''b'', JObj [(''type'', JStr ''boolean'')])])])])])) ''a_b''
      = Some (JObj [(''type'', JStr ''boolean'')])
   \<and> stringify (JObj [(''type'', JStr ''string'')]) \<noteq> stringify (JObj [(''type'', JStr ''boolean'')])"
  by (simp add: schema_eval spec_flatten.simps spec_children_def insertion_children_def)

text \<open>
  The inherited member: a name \<open>__proto__\<close> that is a top-level property of one input
  only is compared with the object prototype, which serialises as the empty object does.
\<close>

lemma inherited_proto_member:
  "checkPolicySchemaChanges
     (JObj [(''properties'', JObj []), (''patternProperties'', JObj [(''__proto__'', JObj [])])])
     (JObj [(''properties'', JObj [(''__proto__'', JObj [])])])
   = Inr (Some \<lparr> added = [], removed = [], changed = [] \<rparr>)"
  "checkPolicySchemaChanges
     (JObj [(''properties'', JObj []), (''patternProperties'', JObj [(''__proto__'', JObj [])])])
     (JObj [(''properties'', JObj [(''__proto__'', JObj [(''type'', JStr ''string'')])])])
   = Inr (Some \<lparr> added = [], removed = [], changed = [''__proto__''] \<rparr>)"
  "checkPolicySchemaChanges
     (JObj [(''properties'', JObj []), (''patternProperties'', JObj [(''toString'', JObj [])])])
     (JObj [(''properties'', JObj []), (''patternProperties'', JObj [(''toString'', JObj [(''x'', JNull)])])])
   = Inr (Some \<lparr> added = [], removed = [], changed = [] \<rparr>)"
  by (simp_all add: schema_eval)

end
